theory Spec2Isabelle
  imports Main "HOL-Library.AList"
begin

section \<open>Python values\<close>

text \<open>
  A Python \<open>str\<close> is a sequence of Unicode code points; a character is a \<open>str\<close> of
  length one. Field tags that the code only compares with ASCII literals (\<open>method\<close>,
  \<open>kind\<close>, \<open>letter_mode\<close>, the keys of \<open>weights\<close>) are HOL strings.
\<close>

type_synonym pstr = "nat list"

text \<open>The exceptions the modelled functions raise, one constructor per raise site.\<close>

datatype error =
    InvalidTarget          \<comment> \<open>ValueError: Target energy must be 1..9\<close>
  | NoValidAllowed         \<comment> \<open>ValueError: No valid allowed symbols; provide a non-empty set.\<close>
  | NoFeasibleCombination  \<comment> \<open>ValueError: No feasible combination to reach target with given symbols.\<close>
  | NoFeasiblePlan         \<comment> \<open>ValueError: No feasible substitution/deletion plan to reach target.\<close>
  | UnsupportedMethod      \<comment> \<open>ValueError: Unsupported method\<close>
  | OrdTypeError           \<comment> \<open>TypeError of \<open>ord\<close> on a str whose length is not 1\<close>
  | IntValueError          \<comment> \<open>ValueError of \<open>int\<close> on a str that is no decimal literal\<close>
  | KeyError               \<comment> \<open>KeyError of a dict subscript\<close>

subsection \<open>Character classification\<close>

text \<open>
  \<open>str.isspace\<close>, \<open>str.isalpha\<close>, \<open>str.isdigit\<close>, \<open>str.upper\<close>, \<open>str.swapcase\<close> and
  \<open>int\<close> read the Unicode character database of the interpreter. Below code point 128
  the tables are written out; above, they are a parameter of the model, so that every
  general theorem holds for whatever the database says.
\<close>

record ucd =
  ucd_isspace :: "nat \<Rightarrow> bool"
  ucd_isalpha :: "nat \<Rightarrow> bool"
  ucd_isdigit :: "nat \<Rightarrow> bool"
  ucd_decimal :: "nat \<Rightarrow> nat option"
  ucd_upper :: "nat \<Rightarrow> nat list"
  ucd_swapcase :: "nat \<Rightarrow> nat list"

definition chr_isspace :: "ucd \<Rightarrow> nat \<Rightarrow> bool" where
  "chr_isspace U c =
     (if c < 128 then (9 \<le> c \<and> c \<le> 13) \<or> (28 \<le> c \<and> c \<le> 32) else ucd_isspace U c)"

definition chr_isalpha :: "ucd \<Rightarrow> nat \<Rightarrow> bool" where
  "chr_isalpha U c =
     (if c < 128 then (65 \<le> c \<and> c \<le> 90) \<or> (97 \<le> c \<and> c \<le> 122) else ucd_isalpha U c)"

definition chr_isdigit :: "ucd \<Rightarrow> nat \<Rightarrow> bool" where
  "chr_isdigit U c = (if c < 128 then 48 \<le> c \<and> c \<le> 57 else ucd_isdigit U c)"

definition chr_decimal :: "ucd \<Rightarrow> nat \<Rightarrow> nat option" where
  "chr_decimal U c =
     (if c < 128 then (if 48 \<le> c \<and> c \<le> 57 then Some (c - 48) else None)
      else ucd_decimal U c)"

definition chr_upper :: "ucd \<Rightarrow> nat \<Rightarrow> nat list" where
  "chr_upper U c =
     (if c < 128 then (if 97 \<le> c \<and> c \<le> 122 then [c - 32] else [c]) else ucd_upper U c)"

definition chr_swapcase :: "ucd \<Rightarrow> nat \<Rightarrow> nat list" where
  "chr_swapcase U c =
     (if c < 128 then
        (if 65 \<le> c \<and> c \<le> 90 then [c + 32]
         else if 97 \<le> c \<and> c \<le> 122 then [c - 32] else [c])
      else ucd_swapcase U c)"

text \<open>The methods on a whole \<open>str\<close>: the predicates are false on the empty string.\<close>

definition isspace :: "ucd \<Rightarrow> pstr \<Rightarrow> bool" where
  "isspace U s = (s \<noteq> [] \<and> list_all (chr_isspace U) s)"

definition isalpha :: "ucd \<Rightarrow> pstr \<Rightarrow> bool" where
  "isalpha U s = (s \<noteq> [] \<and> list_all (chr_isalpha U) s)"

definition isdigit :: "ucd \<Rightarrow> pstr \<Rightarrow> bool" where
  "isdigit U s = (s \<noteq> [] \<and> list_all (chr_isdigit U) s)"

definition upper :: "ucd \<Rightarrow> pstr \<Rightarrow> pstr" where
  "upper U s = concat (map (chr_upper U) s)"

text \<open>\<open>ord(c)\<close>: the code point of a one-character str, TypeError otherwise.\<close>

definition ord :: "pstr \<Rightarrow> error + int" where
  "ord s = (case s of [c] \<Rightarrow> Inr (int c) | _ \<Rightarrow> Inl OrdTypeError)"

text \<open>
  \<open>int(ch)\<close> as \<open>char_energy\<close> calls it, on a str for which \<open>isdigit\<close> holds: the
  base-10 value when every character is a decimal digit, ValueError otherwise (a
  superscript two is a digit and no decimal).
\<close>

fun int_digits :: "ucd \<Rightarrow> int \<Rightarrow> pstr \<Rightarrow> error + int" where
  "int_digits U acc [] = Inr acc"
| "int_digits U acc (c # cs) =
     (case chr_decimal U c of
        None \<Rightarrow> Inl IntValueError
      | Some d \<Rightarrow> int_digits U (10 * acc + int d) cs)"

definition py_int :: "ucd \<Rightarrow> pstr \<Rightarrow> error + int" where
  "py_int U s = (if s = [] then Inl IntValueError else int_digits U 0 s)"

text \<open>Comparison of two strs with \<open><=\<close>: lexicographic on code points.\<close>

fun str_le :: "pstr \<Rightarrow> pstr \<Rightarrow> bool" where
  "str_le [] ys = True"
| "str_le (x # xs) [] = False"
| "str_le (x # xs) (y # ys) = (x < y \<or> (x = y \<and> str_le xs ys))"

section \<open>principles.py\<close>

text \<open>
  The fields of \<open>Principle\<close> that the energy functions read (\<open>name\<close>, \<open>description\<close>,
  \<open>number_mode\<close> and \<open>harmonics\<close> are never read by them).
\<close>

record Principle =
  symbol_energy :: "pstr \<rightharpoonup> int"
  letter_mode :: string
  normalize_zero_to_nine :: bool
  weights :: "string \<rightharpoonup> int"

text \<open>\<open>weights.get(key, 1)\<close>.\<close>

definition weights_get :: "Principle \<Rightarrow> string \<Rightarrow> int" where
  "weights_get P k = (case weights P k of None \<Rightarrow> 1 | Some w \<Rightarrow> w)"

section \<open>energy.py\<close>

definition digital_root :: "int \<Rightarrow> bool \<Rightarrow> int" where
  "digital_root n0 zero_to_nine =
     (let n = \<bar>n0\<bar> in
      if n = 0 then (if zero_to_nine then 9 else 0)
      else if n mod 9 = 0 then 9 else n mod 9)"

definition letter_value :: "ucd \<Rightarrow> pstr \<Rightarrow> error + int" where
  "letter_value U ch =
     (let c = upper U ch in
      if str_le [65] c \<and> str_le c [90] then
        (case ord c of Inl e \<Rightarrow> Inl e | Inr v \<Rightarrow> Inr (v - 65 + 1))
      else ord c)"

definition weighted :: "Principle \<Rightarrow> string \<Rightarrow> int \<Rightarrow> int" where
  "weighted P k base =
     (let e = digital_root base (normalize_zero_to_nine P)
      in digital_root (e * weights_get P k) (normalize_zero_to_nine P))"

definition char_energy :: "ucd \<Rightarrow> Principle \<Rightarrow> pstr \<Rightarrow> error + int" where
  "char_energy U P ch =
     (if isspace U ch then Inr 0
      else if isalpha U ch then
        (case (if letter_mode P = ''a1z26'' then letter_value U ch else ord ch) of
           Inl e \<Rightarrow> Inl e
         | Inr base \<Rightarrow> Inr (weighted P ''letter'' base))
      else if isdigit U ch then
        (case py_int U ch of
           Inl e \<Rightarrow> Inl e
         | Inr base \<Rightarrow> Inr (weighted P ''digit'' base))
      else
        (case symbol_energy P ch of
           Some v \<Rightarrow> Inr (weighted P ''symbol'' v)
         | None \<Rightarrow>
             (case ord ch of
                Inl e \<Rightarrow> Inl e
              | Inr v \<Rightarrow> Inr (weighted P ''symbol'' v))))"

text \<open>\<open>sum(char_energy(ch, principle) for ch in text)\<close>: the first raise ends the sum.\<close>

fun energy_sum :: "ucd \<Rightarrow> Principle \<Rightarrow> int \<Rightarrow> pstr \<Rightarrow> error + int" where
  "energy_sum U P acc [] = Inr acc"
| "energy_sum U P acc (c # cs) =
     (case char_energy U P [c] of
        Inl e \<Rightarrow> Inl e
      | Inr x \<Rightarrow> energy_sum U P (acc + x) cs)"

definition string_energy :: "ucd \<Rightarrow> Principle \<Rightarrow> pstr \<Rightarrow> error + int \<times> int" where
  "string_energy U P text =
     (case energy_sum U P 0 text of
        Inl e \<Rightarrow> Inl e
      | Inr tot \<Rightarrow> Inr (tot, digital_root tot (normalize_zero_to_nine P)))"

section \<open>optimize.py: the insertion planner\<close>

record Plan =
  "method" :: string
  target :: int
  steps :: "(pstr \<times> int) list"
  total_before :: int
  dr_before :: int
  total_after :: int
  dr_after :: int

definition residue :: "int \<Rightarrow> int" where
  "residue n = n mod 9"

definition target_residue :: "int \<Rightarrow> int \<Rightarrow> int" where
  "target_residue tot tgt =
     (let cur_r = residue tot; tgt_r = tgt mod 9 in (tgt_r - cur_r) mod 9)"

text \<open>\<open>enumerate(xs)\<close> with Python's integer indices.\<close>

definition enumerate_int :: "'a list \<Rightarrow> (int \<times> 'a) list" where
  "enumerate_int xs = zip (map int [0..<length xs]) xs"

text \<open>
  The \<open>for idx, r in enumerate(residues)\<close> loop of \<open>minimal_residue_combo\<close> for one
  dequeued residue \<open>cur\<close> of depth \<open>d\<close>, on the dicts \<open>parent\<close> and \<open>depth\<close> and the
  queue \<open>q\<close>. \<open>Inl\<close>: \<open>delta_res\<close> was discovered, and the loop is left with the dicts
  of that moment; \<open>Inr\<close>: the loop ran to its end.
\<close>

type_synonym bfs_state = "(int \<rightharpoonup> int \<times> int) \<times> (int \<rightharpoonup> int) \<times> int list"

fun expand :: "int \<Rightarrow> int \<Rightarrow> int \<Rightarrow> (int \<times> int) list \<Rightarrow> bfs_state \<Rightarrow> bfs_state + bfs_state" where
  "expand delta_res cur d [] st = Inr st"
| "expand delta_res cur d ((idx, r) # rest) (parent, depth, q) =
     (let nxt = (cur + r) mod 9 in
      if parent nxt = None then
        (let parent' = parent(nxt \<mapsto> (cur, idx)); depth' = depth(nxt \<mapsto> d + 1) in
         if nxt = delta_res then Inl (parent', depth', q)
         else expand delta_res cur d rest (parent', depth', q @ [nxt]))
      else expand delta_res cur d rest (parent, depth, q))"

lemma expand_measure:
  "expand delta_res cur d ers (parent, depth, q) = Inr (parent', depth', q') \<Longrightarrow>
   2 * card ({0..8} - dom parent') + length q' \<le> 2 * card ({0..8} - dom parent) + length q"
proof (induction ers arbitrary: parent depth q)
  case Nil
  then show ?case by simp
next
  case (Cons a ers)
  obtain idx r where a: "a = (idx, r)" by (cases a)
  let ?nxt = "(cur + r) mod 9"
  show ?case
  proof (cases "parent ?nxt = None")
    case False
    with Cons.prems a have
      "expand delta_res cur d ers (parent, depth, q) = Inr (parent', depth', q')"
      by (simp add: Let_def)
    from Cons.IH[OF this] show ?thesis .
  next
    case True
    with Cons.prems a have ne: "?nxt \<noteq> delta_res"
      by (auto simp: Let_def split: if_splits)
    with Cons.prems a True have
      "expand delta_res cur d ers
         (parent(?nxt \<mapsto> (cur, idx)), depth(?nxt \<mapsto> d + 1), q @ [?nxt]) = Inr (parent', depth', q')"
      by (simp add: Let_def)
    from Cons.IH[OF this] have le:
      "2 * card ({0..8} - dom parent') + length q'
         \<le> 2 * card ({0..8} - dom (parent(?nxt \<mapsto> (cur, idx)))) + length (q @ [?nxt])" .
    have mem: "?nxt \<in> {0..8} - dom parent"
      using True by (auto simp: dom_def)
    have fin: "finite ({0..8} - dom parent)" by simp
    have eq: "{0..8} - dom (parent(?nxt \<mapsto> (cur, idx))) = ({0..8} - dom parent) - {?nxt}"
      by auto
    have "card (({0..8} - dom parent) - {?nxt}) < card ({0..8} - dom parent)"
      using mem fin by (meson card_Diff1_less)
    with le eq show ?thesis by simp
  qed
qed

text \<open>
  The \<open>while q\<close> loop. \<open>Inr None\<close>: the queue ran empty (the function returns None);
  \<open>Inr (Some (parent, nxt))\<close>: \<open>nxt = delta_res\<close> was discovered with these parents.
\<close>

function bfs_loop ::
  "int \<Rightarrow> int list \<Rightarrow> int \<Rightarrow> (int \<rightharpoonup> int \<times> int) \<Rightarrow> (int \<rightharpoonup> int) \<Rightarrow> int list
     \<Rightarrow> error + ((int \<rightharpoonup> int \<times> int) \<times> int) option" where
  "bfs_loop delta_res residues max_steps parent depth [] = Inr None"
| "bfs_loop delta_res residues max_steps parent depth (cur # q) =
     (case depth cur of
        None \<Rightarrow> Inl KeyError
      | Some d \<Rightarrow>
          if d \<ge> max_steps then bfs_loop delta_res residues max_steps parent depth q
          else
            (case expand delta_res cur d (enumerate_int residues) (parent, depth, q) of
               Inl (parent', depth', q') \<Rightarrow> Inr (Some (parent', delta_res))
             | Inr (parent', depth', q') \<Rightarrow>
                 bfs_loop delta_res residues max_steps parent' depth' q'))"
  by pat_completeness auto
termination
proof (relation "measure (\<lambda>(delta_res, residues, max_steps, parent, depth, q).
                    2 * card ({0..8} - dom parent) + length q)", goal_cases)
  case 1
  then show ?case by simp
next
  case (2 delta_res residues max_steps parent depth cur q d)
  then show ?case by simp
next
  case (3 delta_res residues max_steps parent depth cur q d st parent' rest depth' q')
  then have "expand delta_res cur d (enumerate_int residues) (parent, depth, q)
               = Inr (parent', depth', q')" by simp
  from expand_measure[OF this] show ?case by simp
qed

text \<open>
  The path reconstruction \<open>while at != 0\<close>: it follows \<open>parent\<close> and need not end on
  an arbitrary dict, so it is a partial function; \<open>None\<close> is a run that never returns.
\<close>

partial_function (option) walk_parent ::
  "(int \<rightharpoonup> int \<times> int) \<Rightarrow> int \<Rightarrow> int list \<Rightarrow> (error + int list) option" where
  "walk_parent parent at seq =
     (if at \<noteq> 0 then
        (case parent at of
           None \<Rightarrow> Some (Inl KeyError)
         | Some (prev, i) \<Rightarrow> walk_parent parent prev (seq @ [i]))
      else Some (Inr seq))"

declare walk_parent.simps [code]

text \<open>The result joins the three outcomes: no return, a raise, or \<open>Optional[List[int]]\<close>.\<close>

definition minimal_residue_combo ::
  "int \<Rightarrow> (pstr \<times> int) list \<Rightarrow> int \<Rightarrow> (error + int list option) option" where
  "minimal_residue_combo delta_res allowed max_steps =
     (let residues = map (\<lambda>(s, e). e mod 9) allowed in
      if delta_res = 0 then Some (Inr (Some []))
      else if list_all (\<lambda>r. r = 0) residues then Some (Inr None)
      else
        (case bfs_loop delta_res residues max_steps
                 [0 \<mapsto> (- 1, - 1)] [0 \<mapsto> 0] [0] of
           Inl e \<Rightarrow> Some (Inl e)
         | Inr None \<Rightarrow> Some (Inr None)
         | Inr (Some (parent, nxt)) \<Rightarrow>
             (case walk_parent parent nxt [] of
                None \<Rightarrow> None
              | Some (Inl e) \<Rightarrow> Some (Inl e)
              | Some (Inr seq) \<Rightarrow> Some (Inr (Some (rev seq))))))"

text \<open>\<open>counts[i] = counts.get(i, 0) + 1\<close> over the sequence.\<close>

fun tally :: "int list \<Rightarrow> (int \<rightharpoonup> int) \<Rightarrow> (int \<rightharpoonup> int)" where
  "tally [] counts = counts"
| "tally (i # seq) counts =
     tally seq (counts(i \<mapsto> (case counts i of None \<Rightarrow> 0 | Some c \<Rightarrow> c) + 1))"

fun emit_steps :: "(int \<rightharpoonup> int) \<Rightarrow> (int \<times> (pstr \<times> int)) list \<Rightarrow> (pstr \<times> int) list" where
  "emit_steps counts [] = []"
| "emit_steps counts ((i, (symb, e)) # rest) =
     (case counts i of
        None \<Rightarrow> emit_steps counts rest
      | Some c \<Rightarrow> (symb, c) # emit_steps counts rest)"

definition build_steps_from_seq :: "int list \<Rightarrow> (pstr \<times> int) list \<Rightarrow> (pstr \<times> int) list" where
  "build_steps_from_seq seq allowed = emit_steps (tally seq Map.empty) (enumerate_int allowed)"

text \<open>The loop that keeps the allowed symbols of nonzero energy.\<close>

fun collect_allowed :: "ucd \<Rightarrow> Principle \<Rightarrow> pstr \<Rightarrow> error + (pstr \<times> int) list" where
  "collect_allowed U P [] = Inr []"
| "collect_allowed U P (s # rest) =
     (case char_energy U P [s] of
        Inl err \<Rightarrow> Inl err
      | Inr e \<Rightarrow>
          (case collect_allowed U P rest of
             Inl err \<Rightarrow> Inl err
           | Inr allowed \<Rightarrow> Inr (if e = 0 then allowed else ([s], e) # allowed)))"

text \<open>\<open>sum(count * char_energy(symb, principle) for symb, count in steps)\<close>.\<close>

fun added_energy :: "ucd \<Rightarrow> Principle \<Rightarrow> int \<Rightarrow> (pstr \<times> int) list \<Rightarrow> error + int" where
  "added_energy U P acc [] = Inr acc"
| "added_energy U P acc ((symb, cnt) # rest) =
     (case char_energy U P symb of
        Inl err \<Rightarrow> Inl err
      | Inr e \<Rightarrow> added_energy U P (acc + cnt * e) rest)"

text \<open>The built-in symbol set \<open>".!?,*+"\<close>.\<close>

definition default_symbols :: pstr where
  "default_symbols = [46, 33, 63, 44, 42, 43]"

text \<open>\<open>if not allowed_symbols: allowed_symbols = ".!?,*+"\<close>: None and the empty str are falsy.\<close>

definition allowed_or_default :: "pstr option \<Rightarrow> pstr" where
  "allowed_or_default allowed_symbols =
     (case allowed_symbols of
        None \<Rightarrow> default_symbols
      | Some s \<Rightarrow> if s = [] then default_symbols else s)"

definition optimize_attunement ::
  "ucd \<Rightarrow> Principle \<Rightarrow> pstr \<Rightarrow> int \<Rightarrow> pstr option \<Rightarrow> string \<Rightarrow> int
     \<Rightarrow> (error + Plan) option" where
  "optimize_attunement U P text tgt allowed_symbols meth max_steps =
     (case string_energy U P text of
        Inl err \<Rightarrow> Some (Inl err)
      | Inr (tot, dr) \<Rightarrow>
          if \<not> (1 \<le> tgt \<and> tgt \<le> 9) then Some (Inl InvalidTarget)
          else if dr = tgt then
            Some (Inr \<lparr>method = meth, target = tgt, steps = [], total_before = tot,
                       dr_before = dr, total_after = tot, dr_after = dr\<rparr>)
          else
            (let symbols = allowed_or_default allowed_symbols in
             case collect_allowed U P symbols of
               Inl err \<Rightarrow> Some (Inl err)
             | Inr allowed \<Rightarrow>
                 if allowed = [] then Some (Inl NoValidAllowed)
                 else
                   (let delta_res = target_residue tot tgt in
                    case minimal_residue_combo delta_res allowed max_steps of
                      None \<Rightarrow> None
                    | Some (Inl err) \<Rightarrow> Some (Inl err)
                    | Some (Inr None) \<Rightarrow> Some (Inl NoFeasibleCombination)
                    | Some (Inr (Some seq)) \<Rightarrow>
                        (let stps = build_steps_from_seq seq allowed in
                         case added_energy U P 0 stps of
                           Inl err \<Rightarrow> Some (Inl err)
                         | Inr added \<Rightarrow>
                             (let new_total = tot + added;
                                  new_dr = digital_root new_total (normalize_zero_to_nine P)
                              in Some (Inr \<lparr>method = meth, target = tgt, steps = stps,
                                            total_before = tot, dr_before = dr,
                                            total_after = new_total, dr_after = new_dr\<rparr>))))))"

section \<open>optimize.py: applying an insertion plan\<close>

text \<open>\<open>s * n\<close> on a str, and \<open>[s] * n\<close> on a one-element list: empty when \<open>n \<le> 0\<close>.\<close>

definition repeat_str :: "pstr \<Rightarrow> int \<Rightarrow> pstr" where
  "repeat_str s n = concat (replicate (nat n) s)"

definition joined_steps :: "(pstr \<times> int) list \<Rightarrow> pstr" where
  "joined_steps stps = concat (map (\<lambda>(symb, cnt). repeat_str symb cnt) stps)"

definition insert_list :: "(pstr \<times> int) list \<Rightarrow> pstr list" where
  "insert_list stps = concat (map (\<lambda>(symb, cnt). replicate (nat cnt) symb) stps)"

text \<open>The \<open>for i, ch in enumerate(chars)\<close> loop of the intersperse method.\<close>

fun intersperse_loop ::
  "int \<Rightarrow> pstr list \<Rightarrow> (int \<times> nat) list \<Rightarrow> pstr list \<times> nat \<Rightarrow> pstr list \<times> nat" where
  "intersperse_loop interval inserts [] (out, i_ins) = (out, i_ins)"
| "intersperse_loop interval inserts ((i, c) # rest) (out, i_ins) =
     (let out1 = out @ [[c]] in
      if (i + 1) mod interval = 0 \<and> i_ins < length inserts then
        intersperse_loop interval inserts rest (out1 @ [inserts ! i_ins], i_ins + 1)
      else intersperse_loop interval inserts rest (out1, i_ins))"

definition apply_plan :: "pstr \<Rightarrow> Plan \<Rightarrow> int option \<Rightarrow> error + pstr" where
  "apply_plan text plan spread =
     (if steps plan = [] then Inr text
      else if method plan = ''append'' then Inr (text @ joined_steps (steps plan))
      else if method plan = ''prepend'' then Inr (joined_steps (steps plan) @ text)
      else if method plan = ''intersperse'' then
        (let inserts = insert_list (steps plan) in
         if text = [] then Inr (concat inserts)
         else
           (let n = length inserts in
            if n = 0 then Inr text
            else
              (let interval = (case spread of
                                 None \<Rightarrow> max 1 (int (length text) div (int n + 1))
                               | Some sp \<Rightarrow> if sp = 0
                                            then max 1 (int (length text) div (int n + 1))
                                            else sp);
                   (out, i_ins) = intersperse_loop interval inserts (enumerate_int text) ([], 0)
               in Inr (concat (out @ drop i_ins inserts)))))
      else Inl UnsupportedMethod)"

section \<open>optimize.py: edit plans\<close>

record EditOp =
  kind :: string
  pos :: int
  ch :: "pstr option"
  count :: int

record EditPlan =
  "method" :: string
  target :: int
  ops :: "EditOp list"
  total_before :: int
  dr_before :: int
  total_after :: int
  dr_after :: int

text \<open>\<open>del chars[p]\<close> for an index in range.\<close>

definition delete_at :: "'a list \<Rightarrow> nat \<Rightarrow> 'a list" where
  "delete_at xs p = take p xs @ drop (Suc p) xs"

fun apply_dels :: "EditOp list \<Rightarrow> pstr list \<Rightarrow> pstr list" where
  "apply_dels [] chars = chars"
| "apply_dels (e # es) chars =
     apply_dels es
       (if 0 \<le> pos e \<and> pos e < int (length chars) then delete_at chars (nat (pos e))
        else chars)"

fun apply_subs :: "EditOp list \<Rightarrow> pstr list \<Rightarrow> pstr list" where
  "apply_subs [] chars = chars"
| "apply_subs (e # es) chars =
     apply_subs es
       (case ch e of
          Some c \<Rightarrow>
            if 0 \<le> pos e \<and> pos e < int (length chars) then chars[nat (pos e) := c]
            else chars
        | None \<Rightarrow> chars)"

fun apply_ins :: "EditOp list \<Rightarrow> pstr list \<Rightarrow> pstr list" where
  "apply_ins [] chars = chars"
| "apply_ins (e # es) chars =
     (let insert_str = repeat_str (case ch e of None \<Rightarrow> [] | Some c \<Rightarrow> c) (max 1 (count e)) in
      apply_ins es
        (if 0 \<le> pos e \<and> pos e \<le> int (length chars) then
           (let left = concat (take (nat (pos e)) chars);
                right = concat (drop (nat (pos e)) chars)
            in map (\<lambda>c. [c]) (left @ insert_str @ right))
         else chars))"

text \<open>
  \<open>sorted(dels, key=lambda o: o.pos, reverse=True)\<close> is stable: operations of equal
  position keep their order, as the stable sort on the negated key does.
\<close>

definition apply_edit_plan :: "pstr \<Rightarrow> EditPlan \<Rightarrow> pstr" where
  "apply_edit_plan text plan =
     (if ops plan = [] then text
      else
        (let chars = map (\<lambda>c. [c]) text;
             dels = filter (\<lambda>e. kind e = ''del'') (ops plan);
             chars = apply_dels (sort_key (\<lambda>e. - pos e) dels) chars;
             subs = filter (\<lambda>e. kind e = ''sub'') (ops plan);
             chars = apply_subs subs chars;
             ins = filter (\<lambda>e. kind e = ''ins'') (ops plan);
             chars = apply_ins (sort_key pos ins) chars
         in concat chars))"

section \<open>optimize.py: the edit planner\<close>

text \<open>
  The loop over \<open>subs[ch]\<close>: the dict \<open>seen\<close> keeps, in insertion order, the first
  replacement of each residue delta.
\<close>

fun scan_repls ::
  "ucd \<Rightarrow> Principle \<Rightarrow> int \<Rightarrow> pstr list \<Rightarrow> (int \<times> pstr) list \<Rightarrow> error + (int \<times> pstr) list" where
  "scan_repls U P cur_e [] seen = Inr seen"
| "scan_repls U P cur_e (repl # rest) seen =
     (case char_energy U P repl of
        Inl err \<Rightarrow> Inl err
      | Inr new_e \<Rightarrow>
          (let r = (new_e - cur_e) mod 9 in
           scan_repls U P cur_e rest
             (if map_of seen r = None then seen @ [(r, repl)] else seen)))"

text \<open>The body of \<open>for i, ch in enumerate(text)\<close>: the list \<open>pos_deltas[i]\<close>.\<close>

definition position_options ::
  "ucd \<Rightarrow> Principle \<Rightarrow> (pstr \<rightharpoonup> pstr list) option \<Rightarrow> bool \<Rightarrow> nat
     \<Rightarrow> error + (int \<times> pstr option) list" where
  "position_options U P subs allow_delete c =
     (case char_energy U P [c] of
        Inl err \<Rightarrow> Inl err
      | Inr cur_e \<Rightarrow>
          (case (case subs of
                   None \<Rightarrow> Inr []
                 | Some m \<Rightarrow>
                     (case m [c] of
                        None \<Rightarrow> Inr []
                      | Some repls \<Rightarrow> scan_repls U P cur_e repls [])) of
             Inl err \<Rightarrow> Inl err
           | Inr seen \<Rightarrow>
               (case (if isalpha U [c] then
                        (let alt = chr_swapcase U c in
                         if alt \<noteq> [c] then
                           (case char_energy U P alt of
                              Inl err \<Rightarrow> Inl err
                            | Inr new_e \<Rightarrow>
                                (let r = (new_e - cur_e) mod 9 in
                                 Inr (if map_of seen r = None then seen @ [(r, alt)]
                                      else seen)))
                         else Inr seen)
                      else Inr seen) of
                  Inl err \<Rightarrow> Inl err
                | Inr seen' \<Rightarrow>
                    Inr (map (\<lambda>(r, repl). (r, Some repl)) (filter (\<lambda>(r, repl). r \<noteq> 0) seen')
                         @ (if allow_delete then
                              (let rdel = (- cur_e) mod 9 in
                               if rdel \<noteq> 0 then [(rdel, None)] else [])
                            else [])))))"

fun all_options ::
  "ucd \<Rightarrow> Principle \<Rightarrow> (pstr \<rightharpoonup> pstr list) option \<Rightarrow> bool \<Rightarrow> pstr
     \<Rightarrow> error + (int \<times> pstr option) list list" where
  "all_options U P subs allow_delete [] = Inr []"
| "all_options U P subs allow_delete (c # cs) =
     (case position_options U P subs allow_delete c of
        Inl err \<Rightarrow> Inl err
      | Inr opts \<Rightarrow>
          (case all_options U P subs allow_delete cs of
             Inl err \<Rightarrow> Inl err
           | Inr rest \<Rightarrow> Inr (opts # rest)))"

text \<open>
  The dict \<open>best\<close>: residue to (count, previous residue, (position, delta,
  replacement)). Its items are walked in insertion order, so it is an association list;
  an assignment replaces in place or appends.
\<close>

type_synonym best_entry = "int \<times> int \<times> (int \<times> int \<times> pstr option)"
type_synonym best_dict = "(int \<times> best_entry) list"

fun dp_options ::
  "int \<Rightarrow> int \<Rightarrow> int \<Rightarrow> int \<Rightarrow> (int \<times> pstr option) list \<Rightarrow> best_dict \<Rightarrow> best_dict" where
  "dp_options max_edits i res cnt [] new_best = new_best"
| "dp_options max_edits i res cnt ((r, repl) # rest) new_best =
     (let nr = (res + r) mod 9; nc = cnt + 1 in
      if nc > max_edits then dp_options max_edits i res cnt rest new_best
      else if (case map_of new_best nr of None \<Rightarrow> True | Some (c, _) \<Rightarrow> nc < c) then
        dp_options max_edits i res cnt rest (AList.update nr (nc, res, (i, r, repl)) new_best)
      else dp_options max_edits i res cnt rest new_best)"

fun dp_states ::
  "int \<Rightarrow> int \<Rightarrow> (int \<times> pstr option) list \<Rightarrow> best_dict \<Rightarrow> best_dict \<Rightarrow> best_dict" where
  "dp_states max_edits i opts [] new_best = new_best"
| "dp_states max_edits i opts ((res, (cnt, prev, info)) # items) new_best =
     dp_states max_edits i opts items (dp_options max_edits i res cnt opts new_best)"

fun dp_positions ::
  "int \<Rightarrow> int \<Rightarrow> (int \<times> pstr option) list list \<Rightarrow> best_dict \<Rightarrow> best_dict" where
  "dp_positions max_edits i [] best = best"
| "dp_positions max_edits i (opts # rest) best =
     dp_positions max_edits (i + 1) rest (dp_states max_edits i opts best best)"

text \<open>
  The reconstruction \<open>while cur != 0\<close>: it follows the previous-residue field of
  \<open>best\<close>, and need not end on an arbitrary dict, so it is a partial function.
\<close>

partial_function (option) walk_best ::
  "best_dict \<Rightarrow> int \<Rightarrow> EditOp list \<Rightarrow> (error + EditOp list) option" where
  "walk_best best cur acc =
     (if cur \<noteq> 0 then
        (case map_of best cur of
           None \<Rightarrow> Some (Inl KeyError)
         | Some (cnt, prev, (p, r, repl)) \<Rightarrow>
             walk_best best prev
               (if p \<ge> 0 then
                  (case repl of
                     None \<Rightarrow> acc @ [\<lparr>kind = ''del'', pos = p, ch = None, count = 1\<rparr>]
                   | Some s \<Rightarrow> acc @ [\<lparr>kind = ''sub'', pos = p, ch = Some s, count = 1\<rparr>])
                else acc))
      else Some (Inr acc))"

declare walk_best.simps [code]

definition optimize_substitution ::
  "ucd \<Rightarrow> Principle \<Rightarrow> pstr \<Rightarrow> int \<Rightarrow> (pstr \<rightharpoonup> pstr list) option \<Rightarrow> bool \<Rightarrow> pstr option
     \<Rightarrow> int \<Rightarrow> (error + EditPlan) option" where
  "optimize_substitution U P text tgt subs allow_delete allowed_inserts max_edits =
     (case string_energy U P text of
        Inl err \<Rightarrow> Some (Inl err)
      | Inr (tot, dr) \<Rightarrow>
          if \<not> (1 \<le> tgt \<and> tgt \<le> 9) then Some (Inl InvalidTarget)
          else if dr = tgt then
            Some (Inr \<lparr>method = ''substitute'', target = tgt, ops = [], total_before = tot,
                       dr_before = dr, total_after = tot, dr_after = dr\<rparr>)
          else
            (case all_options U P subs allow_delete text of
               Inl err \<Rightarrow> Some (Inl err)
             | Inr pos_deltas \<Rightarrow>
                 (let delta_res = target_residue tot tgt;
                      best = dp_positions max_edits 0 pos_deltas
                               [(0, (0, - 1, (- 1, 0, None)))]
                  in
                  if map_of best delta_res = None then
                    (if allowed_inserts \<noteq> None \<and> allowed_inserts \<noteq> Some [] then
                       (case optimize_attunement U P text tgt allowed_inserts ''append'' 64 of
                          None \<Rightarrow> None
                        | Some (Inl err) \<Rightarrow> Some (Inl err)
                        | Some (Inr append_plan) \<Rightarrow>
                            (let es = map (\<lambda>(symb, cnt).
                                        \<lparr>kind = ''ins'', pos = int (length text),
                                         ch = Some symb, count = cnt\<rparr>) (steps append_plan);
                                 out = apply_edit_plan text
                                         \<lparr>method = ''edit'', target = tgt, ops = es,
                                          total_before = tot, dr_before = dr,
                                          total_after = tot, dr_after = dr\<rparr>
                             in
                             case string_energy U P out of
                               Inl err \<Rightarrow> Some (Inl err)
                             | Inr (new_total, new_dr) \<Rightarrow>
                                 Some (Inr \<lparr>method = ''edit'', target = tgt, ops = es,
                                            total_before = tot, dr_before = dr,
                                            total_after = new_total, dr_after = new_dr\<rparr>)))
                     else Some (Inl NoFeasiblePlan))
                  else
                    (case walk_best best delta_res [] of
                       None \<Rightarrow> None
                     | Some (Inl err) \<Rightarrow> Some (Inl err)
                     | Some (Inr acc) \<Rightarrow>
                         (let out = apply_edit_plan text
                                      \<lparr>method = ''edit'', target = tgt, ops = rev acc,
                                       total_before = tot, dr_before = dr,
                                       total_after = tot, dr_after = dr\<rparr>
                          in
                          case string_energy U P out of
                            Inl err \<Rightarrow> Some (Inl err)
                          | Inr (new_total, new_dr) \<Rightarrow>
                              Some (Inr \<lparr>method = ''edit'', target = tgt, ops = rev acc,
                                         total_before = tot, dr_before = dr,
                                         total_after = new_total, dr_after = new_dr\<rparr>))))))"

section \<open>Concrete configurations\<close>

text \<open>
  The built-in principle "Ninefold Grid" that \<open>Principle.default()\<close> returns when no
  bundled mapping file is present.
\<close>

definition ninefold_symbols :: "(pstr \<times> int) list" where
  "ninefold_symbols =
     [([46], 1), ([44], 2), ([33], 3), ([63], 4), ([58], 5), ([59], 6), ([45], 7),
      ([95], 8), ([42], 9), ([35], 5), ([43], 4), ([61], 6), ([64], 8), ([36], 7),
      ([37], 5), ([38], 9), ([47], 3), ([92], 3), ([40], 2), ([41], 2), ([91], 2),
      ([93], 2), ([123], 2), ([125], 2), ([60], 1), ([62], 1), ([124], 1), ([126], 9),
      ([94], 8)]"

definition ninefold_grid :: Principle where
  "ninefold_grid =
     \<lparr>symbol_energy = map_of ninefold_symbols, letter_mode = ''a1z26'',
      normalize_zero_to_nine = True,
      weights = map_of [(''letter'', 1), (''digit'', 1), (''symbol'', 1)]\<rparr>"

text \<open>
  The Latin-1 Supplement rows of the character database (code points 128 to 255),
  with the three letters outside them that their case mappings lead to: U+0178,
  U+039C and U+03BC. The other rows are not written out; the inputs evaluated in this
  theory stay below 256.
\<close>

definition latin1 :: ucd where
  "latin1 =
     \<lparr>ucd_isspace = (\<lambda>c. c = 133 \<or> c = 160),
      ucd_isalpha = (\<lambda>c. c = 170 \<or> c = 181 \<or> c = 186
                        \<or> (192 \<le> c \<and> c \<le> 255 \<and> c \<noteq> 215 \<and> c \<noteq> 247)
                        \<or> c = 376 \<or> c = 924 \<or> c = 956),
      ucd_isdigit = (\<lambda>c. c = 178 \<or> c = 179 \<or> c = 185),
      ucd_decimal = (\<lambda>c. None),
      ucd_upper = (\<lambda>c. if c = 181 \<or> c = 956 then [924] else if c = 223 then [83, 83]
                        else if c = 255 then [376]
                        else if 224 \<le> c \<and> c \<le> 254 \<and> c \<noteq> 247 then [c - 32] else [c]),
      ucd_swapcase = (\<lambda>c. if c = 181 \<or> c = 956 then [924] else if c = 223 then [83, 83]
                        else if c = 255 then [376] else if c = 376 then [255]
                        else if c = 924 then [956]
                        else if 224 \<le> c \<and> c \<le> 254 \<and> c \<noteq> 247 then [c - 32]
                        else if 192 \<le> c \<and> c \<le> 222 \<and> c \<noteq> 215 then [c + 32] else [c])\<rparr>"

section \<open>Vocabulary of the statements\<close>

text \<open>
  An operation is out of range for a buffer of \<open>n\<close> characters when its position is
  negative, past the end for an insertion, or at or past the end otherwise.
\<close>

definition out_of_range :: "EditOp \<Rightarrow> nat \<Rightarrow> bool" where
  "out_of_range e n =
     (pos e < 0 \<or> (if kind e = ''ins'' then int n < pos e else int n \<le> pos e))"

text \<open>
  The residue graph of the insertion planner has the nine residues as states and, for
  each allowed symbol of residue \<open>r\<close>, an edge from \<open>v\<close> to \<open>(v + r) mod 9\<close>. A path from 0
  is the list of the symbol indices it takes; it ends in the sum of their residues.
  A shortest path to \<open>v\<close> is one that no path to \<open>v\<close> undercuts in length.
\<close>

definition is_path :: "int list \<Rightarrow> int list \<Rightarrow> int \<Rightarrow> bool" where
  "is_path rs seq v =
     ((\<forall>i \<in> set seq. 0 \<le> i \<and> i < int (length rs)) \<and> (\<Sum>i\<leftarrow>seq. rs ! nat i) mod 9 = v)"

definition shortest_path :: "int list \<Rightarrow> int \<Rightarrow> int list \<Rightarrow> bool" where
  "shortest_path rs v seq =
     (is_path rs seq v \<and> (\<forall>seq'. is_path rs seq' v \<longrightarrow> length seq \<le> length seq'))"

text \<open>The total insertion count of a plan: the sum of the counts of its steps.\<close>

definition insertion_count :: "Plan \<Rightarrow> int" where
  "insertion_count plan = sum_list (map snd (steps plan))"

text \<open>
  A selection of edits takes strictly increasing positions of the text and, at each,
  one of the options \<open>pos_deltas\<close> offers there; its residue is the sum of the deltas.
\<close>

definition is_selection ::
  "(int \<times> pstr option) list list \<Rightarrow> (nat \<times> int \<times> pstr option) list \<Rightarrow> bool" where
  "is_selection pos_deltas sel =
     (sorted_wrt (<) (map fst sel) \<and>
      (\<forall>(i, opt) \<in> set sel. i < length pos_deltas \<and> opt \<in> set (pos_deltas ! i)))"

definition selection_residue :: "(nat \<times> int \<times> pstr option) list \<Rightarrow> int" where
  "selection_residue sel = (\<Sum>(i, r, repl)\<leftarrow>sel. r) mod 9"

text \<open>
  The energy of a character of a text, where \<open>char_energy\<close> returns one, and the
  characters for which it does.
\<close>

definition energy_of :: "ucd \<Rightarrow> Principle \<Rightarrow> nat \<Rightarrow> int" where
  "energy_of U P c = (case char_energy U P [c] of Inl err \<Rightarrow> 0 | Inr e \<Rightarrow> e)"

definition has_energy :: "ucd \<Rightarrow> Principle \<Rightarrow> nat \<Rightarrow> bool" where
  "has_energy U P c = (\<exists>e. char_energy U P [c] = Inr e)"

section \<open>Invariants of the search loops\<close>

text \<open>
  The dicts of the breadth-first search form a tree rooted at 0: both have the same
  keys, and every other key has a parent one level up, reached by the recorded symbol.
\<close>

definition tree_inv :: "int list \<Rightarrow> (int \<rightharpoonup> int \<times> int) \<Rightarrow> (int \<rightharpoonup> int) \<Rightarrow> bool" where
  "tree_inv rs parent depth =
     (parent 0 = Some (- 1, - 1) \<and> depth 0 = Some 0 \<and>
      (\<forall>v. (depth v = None) = (parent v = None)) \<and>
      (\<forall>v u i. v \<noteq> 0 \<longrightarrow> parent v = Some (u, i) \<longrightarrow>
         0 \<le> i \<and> i < int (length rs) \<and> v = (u + rs ! nat i) mod 9 \<and>
         (\<exists>du. depth u = Some du \<and> 0 \<le> du \<and> depth v = Some (du + 1))))"

text \<open>A residue is closed when all its successors have a depth, at most one more.\<close>

definition closed :: "int list \<Rightarrow> (int \<rightharpoonup> int) \<Rightarrow> int \<Rightarrow> int \<Rightarrow> bool" where
  "closed rs depth u du =
     (\<forall>i < length rs. \<exists>dw. depth ((u + rs ! i) mod 9) = Some dw \<and> dw \<le> du + 1)"

text \<open>
  With \<open>cur\<close> of depth \<open>d\<close> in hand and \<open>q\<close> the rest of the queue: the queue holds
  residues of depth \<open>d\<close> followed by residues of depth \<open>d + 1\<close>, which are all the
  residues of that depth; no depth exceeds \<open>d + 1\<close>; and every residue below
  \<open>max_steps\<close> that has left the queue is closed.
\<close>

definition level_inv ::
  "int list \<Rightarrow> int \<Rightarrow> (int \<rightharpoonup> int) \<Rightarrow> int \<Rightarrow> int \<Rightarrow> int list \<Rightarrow> bool" where
  "level_inv rs max_steps depth cur d q =
     (depth cur = Some d \<and>
      (\<exists>q1 q2. q = q1 @ q2 \<and> (\<forall>v \<in> set q1. depth v = Some d)
                \<and> (\<forall>v \<in> set q2. depth v = Some (d + 1))) \<and>
      (\<forall>v dv. depth v = Some dv \<longrightarrow> dv \<le> d + 1) \<and>
      (\<forall>v. depth v = Some (d + 1) \<longrightarrow> v \<in> set q) \<and>
      (\<forall>u du. depth u = Some du \<longrightarrow> du < max_steps \<longrightarrow>
          du < d \<or> (du = d \<and> u \<notin> set q \<and> u \<noteq> cur) \<longrightarrow> closed rs depth u du))"

definition head_inv :: "int list \<Rightarrow> int \<Rightarrow> (int \<rightharpoonup> int) \<Rightarrow> int list \<Rightarrow> bool" where
  "head_inv rs max_steps depth q =
     (case q of [] \<Rightarrow> True | cur # q' \<Rightarrow> \<exists>d. level_inv rs max_steps depth cur d q')"

text \<open>
  The dict \<open>best\<close> of the dynamic program: \<open>entry_le best k n\<close> says residue \<open>k\<close> has
  an entry of count at most \<open>n\<close>. In a chain the keys are distinct, residue 0 has
  count 0, counts are not negative, and the previous residue of every other entry has
  a strictly smaller count. A later dict dominates an earlier one when no count grew.
  The dict covers a prefix of the positions when every selection within the budget has
  an entry no larger than the selection.
\<close>

definition entry_le :: "best_dict \<Rightarrow> int \<Rightarrow> int \<Rightarrow> bool" where
  "entry_le best k n = (\<exists>e. map_of best k = Some e \<and> fst e \<le> n)"

definition chain :: "best_dict \<Rightarrow> bool" where
  "chain best =
     (distinct (map fst best) \<and> entry_le best 0 0 \<and>
      (\<forall>a e. map_of best a = Some e \<longrightarrow>
         0 \<le> fst e \<and> (a \<noteq> 0 \<longrightarrow> entry_le best (fst (snd e)) (fst e - 1))))"

definition dominates :: "best_dict \<Rightarrow> best_dict \<Rightarrow> bool" where
  "dominates best best' = (\<forall>k n. entry_le best k n \<longrightarrow> entry_le best' k n)"

definition covers :: "int \<Rightarrow> (int \<times> pstr option) list list \<Rightarrow> best_dict \<Rightarrow> bool" where
  "covers max_edits pre best =
     (\<forall>sel. is_selection pre sel \<longrightarrow> int (length sel) \<le> max_edits \<longrightarrow>
        entry_le best (selection_residue sel) (int (length sel)))"

section \<open>Properties of the digital root\<close>

lemma digital_root_range:
  "0 \<le> digital_root n z \<and> digital_root n z \<le> 9"
  unfolding digital_root_def Let_def
  by (auto intro: order.strict_implies_order)

lemma digital_root_cong_abs: "digital_root n z mod 9 = \<bar>n\<bar> mod 9"
  unfolding digital_root_def Let_def by auto

lemma digital_root_idem: "digital_root (digital_root n z) z = digital_root n z"
proof -
  have r: "0 \<le> \<bar>n\<bar> mod 9" "\<bar>n\<bar> mod 9 < 9" by simp_all
  then have "\<bar>\<bar>n\<bar> mod 9\<bar> = \<bar>n\<bar> mod 9" by simp
  then show ?thesis
    unfolding digital_root_def Let_def by auto
qed


text \<open>
  C5, as the code has it: the digital root is taken of the absolute value, so it is
  congruent mod 9 to \<open>|n|\<close> (to \<open>n\<close> itself when \<open>n\<close> is not negative) and
  idempotent; it is 9 when \<open>n\<close> is nonzero and divisible by 9, \<open>|n| mod 9\<close> for the
  other nonzero \<open>n\<close>, and at 0 it is 9 under the default flag and 0 without it.
\<close>

theorem digital_root_spec:
  "digital_root n z mod 9 = \<bar>n\<bar> mod 9
   \<and> digital_root (digital_root n z) z = digital_root n z
   \<and> (n \<noteq> 0 \<and> \<bar>n\<bar> mod 9 = 0 \<longrightarrow> digital_root n z = 9)
   \<and> (n \<noteq> 0 \<and> \<bar>n\<bar> mod 9 \<noteq> 0 \<longrightarrow> digital_root n z = \<bar>n\<bar> mod 9)
   \<and> (0 \<le> n \<longrightarrow> \<bar>n\<bar> mod 9 = n mod 9)
   \<and> digital_root 0 True = 9 \<and> digital_root 0 False = 0"
  using digital_root_cong_abs[of n z] digital_root_idem[of n z]
  by (auto simp: digital_root_def Let_def)

theorem digital_root_spec_witness:
  "digital_root 26 True mod 9 = 26 mod 9 \<and> digital_root 18 True = 9
   \<and> digital_root 26 True = 8
   \<and> digital_root (digital_root 26 True) True = digital_root 26 True"
  using digital_root_spec[of 26 True] digital_root_spec[of 18 True]
  by (simp add: digital_root_def)

text \<open>C5 as stated fails at \<open>n = -1\<close>: the root is 1, and \<open>-1 mod 9\<close> is 8.\<close>

theorem digital_root_negative_counterexample:
  "digital_root (- 1) True mod 9 \<noteq> (- 1) mod 9 \<and> digital_root (- 1) True \<noteq> (- 1) mod 9"
  by (simp add: digital_root_def)

section \<open>Plans for a text that is already attuned\<close>

text \<open>
  C6: when the checksum's digital root already equals a target in 1..9, both planners
  return a plan with no step and no operation, and applying it returns the text.
\<close>

theorem already_attuned:
  assumes "string_energy U P text = Inr (tot, dr)" and "dr = tgt" and "1 \<le> tgt" and "tgt \<le> 9"
  shows "(\<exists>plan. optimize_attunement U P text tgt allowed_symbols meth max_steps = Some (Inr plan)
            \<and> steps plan = [] \<and> apply_plan text plan spread = Inr text)
       \<and> (\<exists>eplan. optimize_substitution U P text tgt subs allow_delete allowed_inserts max_edits
                     = Some (Inr eplan)
            \<and> ops eplan = [] \<and> apply_edit_plan text eplan = text)"
  using assms
  by (simp add: optimize_attunement_def optimize_substitution_def apply_plan_def
        apply_edit_plan_def)

theorem already_attuned_witness:
  "(\<exists>plan. optimize_attunement latin1 ninefold_grid [65, 66, 67] 6 None ''intersperse'' 64
              = Some (Inr plan)
      \<and> steps plan = [] \<and> apply_plan [65, 66, 67] plan None = Inr [65, 66, 67])
   \<and> (\<exists>eplan. optimize_substitution latin1 ninefold_grid [65, 66, 67] 6 None True None 8
                 = Some (Inr eplan)
      \<and> ops eplan = [] \<and> apply_edit_plan [65, 66, 67] eplan = [65, 66, 67])"
proof -
  have e: "string_energy latin1 ninefold_grid [65, 66, 67] = Inr (6, 6)" by code_simp
  show ?thesis by (rule already_attuned[OF e]) simp_all
qed

section \<open>Order of the operations in an edit plan\<close>

text \<open>
  C7: a plan with a deletion at position 5 and an insertion at position 2 gives the
  same output whichever of the two comes first in the list, whatever operations
  stand before and after the pair.
\<close>

theorem apply_edit_plan_order:
  "apply_edit_plan text
     (plan\<lparr>ops := before @ [\<lparr>kind = ''del'', pos = 5, ch = c1, count = n1\<rparr>,
                              \<lparr>kind = ''ins'', pos = 2, ch = c2, count = n2\<rparr>] @ after\<rparr>)
   = apply_edit_plan text
       (plan\<lparr>ops := before @ [\<lparr>kind = ''ins'', pos = 2, ch = c2, count = n2\<rparr>,
                                \<lparr>kind = ''del'', pos = 5, ch = c1, count = n1\<rparr>] @ after\<rparr>)"
  by (simp add: apply_edit_plan_def)

section \<open>Targets outside 1..9\<close>

text \<open>
  With a target outside 1..9 neither planner returns a plan, whatever the text: both
  raise. The error is the invalid-target one whenever the checksum of the text can be
  computed, since the checksum is computed before the target is tested.
\<close>

lemma invalid_target_no_plan:
  assumes "\<not> (1 \<le> tgt \<and> tgt \<le> 9)"
  shows "(\<exists>err. optimize_attunement U P text tgt allowed_symbols meth max_steps = Some (Inl err))
       \<and> (\<exists>err. optimize_substitution U P text tgt subs allow_delete allowed_inserts max_edits
                   = Some (Inl err))"
proof (cases "string_energy U P text")
  case (Inl err)
  then show ?thesis by (simp add: optimize_attunement_def optimize_substitution_def)
next
  case (Inr td)
  obtain tot dr where "td = (tot, dr)" by (cases td)
  with Inr assms show ?thesis
    by (simp add: optimize_attunement_def optimize_substitution_def)
qed

lemma invalid_target:
  assumes "string_energy U P text = Inr (tot, dr)" and "\<not> (1 \<le> tgt \<and> tgt \<le> 9)"
  shows "optimize_attunement U P text tgt allowed_symbols meth max_steps = Some (Inl InvalidTarget)
       \<and> optimize_substitution U P text tgt subs allow_delete allowed_inserts max_edits
           = Some (Inl InvalidTarget)"
  using assms by (simp add: optimize_attunement_def optimize_substitution_def)

text \<open>
  C8 at the text of the one letter U+00DF with target 0, under the built-in principle:
  the upper case of the letter has two characters, so \<open>ord\<close> raises TypeError in
  \<open>letter_value\<close> while the checksum is computed; both planners end with that error
  and not with the invalid-target error.
\<close>

theorem invalid_target_masked:
  "optimize_attunement latin1 ninefold_grid [223] 0 None ''append'' 64 = Some (Inl OrdTypeError)
   \<and> optimize_substitution latin1 ninefold_grid [223] 0 None False None 8
       = Some (Inl OrdTypeError)"
  by code_simp

section \<open>Out-of-range positions in an edit plan\<close>

lemma apply_dels_skip:
  "\<forall>e \<in> set es. \<not> (0 \<le> pos e \<and> pos e < int (length chars)) \<Longrightarrow> apply_dels es chars = chars"
  by (induction es arbitrary: chars) auto

lemma apply_subs_skip:
  "\<forall>e \<in> set es. \<not> (0 \<le> pos e \<and> pos e < int (length chars)) \<Longrightarrow> apply_subs es chars = chars"
  by (induction es arbitrary: chars) (auto split: option.splits)

lemma apply_ins_skip:
  "\<forall>e \<in> set es. \<not> (0 \<le> pos e \<and> pos e \<le> int (length chars)) \<Longrightarrow> apply_ins es chars = chars"
  by (induction es arbitrary: chars) (auto simp: Let_def)

lemma concat_singletons: "concat (map (\<lambda>c. [c]) xs) = xs"
  by (induction xs) auto

text \<open>
  C9, as the code has it: \<open>apply_edit_plan\<close> raises nothing; an operation whose position
  is out of range is skipped, so a plan of such operations returns the text unchanged.
\<close>

theorem out_of_range_skipped:
  assumes "\<forall>e \<in> set (ops plan). out_of_range e (length text)"
  shows "apply_edit_plan text plan = text"
proof -
  let ?chars = "map (\<lambda>c. [c]) text"
  have d: "apply_dels (sort_key (\<lambda>e. - pos e) (filter (\<lambda>e. kind e = ''del'') (ops plan))) ?chars
             = ?chars"
    by (rule apply_dels_skip) (use assms in \<open>auto simp: out_of_range_def\<close>)
  have s: "apply_subs (filter (\<lambda>e. kind e = ''sub'') (ops plan)) ?chars = ?chars"
    by (rule apply_subs_skip) (use assms in \<open>auto simp: out_of_range_def\<close>)
  have i: "apply_ins (sort_key pos (filter (\<lambda>e. kind e = ''ins'') (ops plan))) ?chars = ?chars"
    by (rule apply_ins_skip) (use assms in \<open>auto simp: out_of_range_def\<close>)
  show ?thesis
    by (simp add: apply_edit_plan_def Let_def d s i concat_singletons)
qed

theorem out_of_range_skipped_witness:
  "apply_edit_plan [97, 98, 99]
     \<lparr>method = ''edit'', target = 1,
      ops = [\<lparr>kind = ''sub'', pos = 3, ch = Some [120], count = 1\<rparr>,
             \<lparr>kind = ''ins'', pos = - 1, ch = Some [120], count = 1\<rparr>,
             \<lparr>kind = ''del'', pos = 7, ch = None, count = 1\<rparr>],
      total_before = 6, dr_before = 6, total_after = 6, dr_after = 6\<rparr> = [97, 98, 99]"
  by (rule out_of_range_skipped) (simp add: out_of_range_def)

text \<open>
  C9 as stated fails: a deletion at position 7 of a three-character text produces an
  output string, the text itself, and no error.
\<close>

theorem invalid_plan_counterexample:
  "out_of_range \<lparr>kind = ''del'', pos = 7, ch = None, count = 1\<rparr> (length [97, 98, 99 :: nat])
   \<and> apply_edit_plan [97, 98, 99]
       \<lparr>method = ''edit'', target = 1,
        ops = [\<lparr>kind = ''del'', pos = 7, ch = None, count = 1\<rparr>],
        total_before = 6, dr_before = 6, total_after = 6, dr_after = 6\<rparr> = [97, 98, 99]"
  by (simp add: out_of_range_def apply_edit_plan_def)

section \<open>The default symbol set\<close>

lemma walk_parent_errors_aux:
  assumes "walk_parent parent at seq = Some y"
  shows "\<forall>e. y = Inl e \<longrightarrow> e = KeyError"
proof (rule walk_parent.raw_induct[OF _ assms, where P = "\<lambda>_ _ _ y. \<forall>e. y = Inl e \<longrightarrow> e = KeyError"], goal_cases)
  case (1 f parent at seq y)
  then show ?case by (auto split: if_splits option.splits)
qed

lemma walk_parent_errors:
  "walk_parent parent at seq = Some (Inl e) \<Longrightarrow> e = KeyError"
  using walk_parent_errors_aux by blast

lemma int_digits_errors: "int_digits U acc s = Inl e \<Longrightarrow> e = IntValueError"
  by (induction s arbitrary: acc) (auto split: option.splits)

lemma ord_errors: "ord s = Inl e \<Longrightarrow> e = OrdTypeError"
  by (auto simp: ord_def split: list.splits)

lemma letter_value_errors: "letter_value U s = Inl e \<Longrightarrow> e = OrdTypeError"
  by (auto simp: letter_value_def Let_def split: if_splits sum.splits dest: ord_errors)

lemma py_int_errors: "py_int U s = Inl e \<Longrightarrow> e = IntValueError"
  by (auto simp: py_int_def split: if_splits dest: int_digits_errors)

lemma char_energy_errors:
  "char_energy U P s = Inl e \<Longrightarrow> e = OrdTypeError \<or> e = IntValueError"
  unfolding char_energy_def
  by (auto split: if_splits sum.splits option.splits dest: letter_value_errors py_int_errors ord_errors)

lemma bfs_loop_errors:
  "bfs_loop delta_res residues max_steps parent depth q = Inl e \<Longrightarrow> e = KeyError"
  by (induction delta_res residues max_steps parent depth q rule: bfs_loop.induct)
     (auto split: option.splits if_splits sum.splits)

lemma digital_root_pos: "1 \<le> digital_root n True"
proof -
  have "0 \<le> \<bar>n\<bar> mod 9" by simp
  then show ?thesis unfolding digital_root_def Let_def by auto
qed

lemma weighted_pos: "normalize_zero_to_nine P \<Longrightarrow> 1 \<le> weighted P k b"
  by (simp add: weighted_def Let_def digital_root_pos)

lemma char_energy_default_symbol:
  assumes "c \<in> set default_symbols"
  shows "char_energy U P [c] =
           Inr (weighted P ''symbol'' (case symbol_energy P [c] of Some v \<Rightarrow> v | None \<Rightarrow> int c))"
proof -
  from assms have "c = 46 \<or> c = 33 \<or> c = 63 \<or> c = 44 \<or> c = 42 \<or> c = 43"
    by (simp add: default_symbols_def)
  then have "\<not> chr_isspace U c" and "\<not> chr_isalpha U c" and "\<not> chr_isdigit U c"
    unfolding chr_isspace_def chr_isalpha_def chr_isdigit_def by auto
  then show ?thesis
    by (simp add: char_energy_def isspace_def isalpha_def isdigit_def ord_def split: option.splits)
qed

lemma collect_allowed_empty:
  "collect_allowed U P s = Inr [] \<Longrightarrow> \<forall>c \<in> set s. char_energy U P [c] = Inr 0"
  by (induction s) (auto split: sum.splits if_splits)

lemma collect_default_nonempty:
  assumes "normalize_zero_to_nine P"
  shows "collect_allowed U P default_symbols \<noteq> Inr []"
proof
  assume "collect_allowed U P default_symbols = Inr []"
  then have "\<forall>c \<in> set default_symbols. char_energy U P [c] = Inr 0"
    by (rule collect_allowed_empty)
  moreover have m: "46 \<in> set default_symbols" by (simp add: default_symbols_def)
  ultimately have "char_energy U P [46] = Inr 0" by blast
  then have "weighted P ''symbol'' (case symbol_energy P [46] of Some v \<Rightarrow> v | None \<Rightarrow> int 46) = 0"
    using char_energy_default_symbol[OF m, of U P] by simp
  moreover have "1 \<le> weighted P ''symbol'' (case symbol_energy P [46] of Some v \<Rightarrow> v | None \<Rightarrow> int 46)"
    by (rule weighted_pos[OF assms])
  ultimately show False by linarith
qed

lemma energy_sum_errors:
  "energy_sum U P acc s = Inl e \<Longrightarrow> e = OrdTypeError \<or> e = IntValueError"
  by (induction s arbitrary: acc) (auto split: sum.splits dest: char_energy_errors)

lemma string_energy_errors:
  "string_energy U P s = Inl e \<Longrightarrow> e = OrdTypeError \<or> e = IntValueError"
  by (auto simp: string_energy_def split: sum.splits dest: energy_sum_errors)

lemma collect_allowed_errors:
  "collect_allowed U P s = Inl e \<Longrightarrow> e = OrdTypeError \<or> e = IntValueError"
  by (induction s) (auto split: sum.splits dest: char_energy_errors)

lemma added_energy_errors:
  "added_energy U P acc s = Inl e \<Longrightarrow> e = OrdTypeError \<or> e = IntValueError"
  by (induction U P acc s rule: added_energy.induct) (auto split: sum.splits dest: char_energy_errors)

lemma minimal_residue_combo_errors:
  "minimal_residue_combo delta_res allowed max_steps = Some (Inl e) \<Longrightarrow> e = KeyError"
  unfolding minimal_residue_combo_def Let_def
  by (auto split: if_splits sum.splits option.splits dest: bfs_loop_errors walk_parent_errors)


lemma default_symbols_nonzero:
  assumes "normalize_zero_to_nine P"
  shows "\<exists>c \<in> set default_symbols. char_energy U P [c] \<noteq> Inr 0"
proof -
  have m: "46 \<in> set default_symbols" by (simp add: default_symbols_def)
  have "1 \<le> weighted P ''symbol'' (case symbol_energy P [46] of Some v \<Rightarrow> v | None \<Rightarrow> int 46)"
    by (rule weighted_pos[OF assms])
  with char_energy_default_symbol[OF m, of U P] have "char_energy U P [46] \<noteq> Inr 0" by simp
  with m show ?thesis by blast
qed

lemma no_valid_allowed_collect:
  assumes r: "optimize_attunement U P text tgt allowed_symbols meth max_steps
                = Some (Inl NoValidAllowed)"
  shows "collect_allowed U P (allowed_or_default allowed_symbols) = Inr []"
proof -
  define symbols where "symbols = allowed_or_default allowed_symbols"
  obtain tot dr where se: "string_energy U P text = Inr (tot, dr)"
    using r string_energy_errors[of U P "text"]
    by (cases "string_energy U P text") (auto simp: optimize_attunement_def)
  have rng: "1 \<le> tgt \<and> tgt \<le> 9" and ne: "dr \<noteq> tgt"
    using r se by (auto simp: optimize_attunement_def split: if_splits)
  have c: "collect_allowed U P symbols = Inr []"
  proof (cases "collect_allowed U P symbols")
    case (Inl err)
    with r se rng ne have "err = NoValidAllowed"
      by (simp add: optimize_attunement_def symbols_def[symmetric])
    with collect_allowed_errors[OF Inl] show ?thesis by simp
  next
    case (Inr allowed)
    show ?thesis
    proof (cases "allowed = []")
      case True
      with Inr show ?thesis by simp
    next
      case False
      have False
      proof (cases "minimal_residue_combo (target_residue tot tgt) allowed max_steps")
        case None
        with r se rng ne Inr False show False
          by (simp add: optimize_attunement_def symbols_def[symmetric] Let_def)
      next
        case (Some res)
        show False
        proof (cases res)
          case (Inl err)
          with r se rng ne Inr False Some have "err = NoValidAllowed"
            by (simp add: optimize_attunement_def symbols_def[symmetric] Let_def)
          with minimal_residue_combo_errors Some Inl show False by blast
        next
          case res: (Inr found)
          show False
          proof (cases found)
            case None
            with r se rng ne Inr False Some res show False
              by (simp add: optimize_attunement_def symbols_def[symmetric] Let_def)
          next
            case seq: (Some seq)
            show False
            proof (cases "added_energy U P 0 (build_steps_from_seq seq allowed)")
              case (Inl err)
              with r se rng ne Inr False Some res seq have "err = NoValidAllowed"
                by (simp add: optimize_attunement_def symbols_def[symmetric] Let_def)
              with added_energy_errors[OF Inl] show False by simp
            next
              case added: (Inr added)
              with r se rng ne Inr False Some res seq show False
                by (simp add: optimize_attunement_def symbols_def[symmetric] Let_def)
            qed
          qed
        qed
      qed
      then show ?thesis ..
    qed
  qed
  then show ?thesis by (simp add: symbols_def)
qed

text \<open>
  C10, as the code has it: the empty-allowed-set error arises only when every symbol
  of the set in force has energy zero, the set in force being the supplied one or,
  with the symbols absent or empty, the built-in one. So when some built-in symbol
  has nonzero energy, as under every principle that normalizes zero to nine, the
  error arises only for an explicitly supplied, non-empty set of zero-energy symbols.
\<close>

theorem empty_allowed_set:
  assumes r: "optimize_attunement U P text tgt allowed_symbols meth max_steps
                = Some (Inl NoValidAllowed)"
  shows "(\<forall>c \<in> set (allowed_or_default allowed_symbols). char_energy U P [c] = Inr 0)
       \<and> ((\<exists>c \<in> set default_symbols. char_energy U P [c] \<noteq> Inr 0) \<longrightarrow>
            (\<exists>s. allowed_symbols = Some s \<and> s \<noteq> []
                 \<and> (\<forall>c \<in> set s. char_energy U P [c] = Inr 0)))
       \<and> (normalize_zero_to_nine P \<longrightarrow>
            (\<exists>c \<in> set default_symbols. char_energy U P [c] \<noteq> Inr 0))"
proof -
  from no_valid_allowed_collect[OF r]
  have z: "\<forall>c \<in> set (allowed_or_default allowed_symbols). char_energy U P [c] = Inr 0"
    by (rule collect_allowed_empty)
  show ?thesis
  proof (intro conjI impI)
    show "\<forall>c \<in> set (allowed_or_default allowed_symbols). char_energy U P [c] = Inr 0"
      by (rule z)
  next
    assume "\<exists>c \<in> set default_symbols. char_energy U P [c] \<noteq> Inr 0"
    with z have "allowed_or_default allowed_symbols \<noteq> default_symbols" by auto
    then obtain s where "allowed_symbols = Some s" "s \<noteq> []"
        "allowed_or_default allowed_symbols = s"
      by (auto simp: allowed_or_default_def split: option.splits if_splits)
    with z show "\<exists>s. allowed_symbols = Some s \<and> s \<noteq> []
                 \<and> (\<forall>c \<in> set s. char_energy U P [c] = Inr 0)" by auto
  next
    assume "normalize_zero_to_nine P"
    then show "\<exists>c \<in> set default_symbols. char_energy U P [c] \<noteq> Inr 0"
      by (rule default_symbols_nonzero)
  qed
qed

theorem empty_allowed_set_witness:
  "optimize_attunement latin1 (ninefold_grid\<lparr>normalize_zero_to_nine := False\<rparr>) [65] 2
       (Some [32]) ''append'' 64 = Some (Inl NoValidAllowed)
   \<and> char_energy latin1 (ninefold_grid\<lparr>normalize_zero_to_nine := False\<rparr>) [46] = Inr 1
   \<and> char_energy latin1 (ninefold_grid\<lparr>normalize_zero_to_nine := False\<rparr>) [32] = Inr 0
   \<and> optimize_attunement latin1 ninefold_grid [65] 2 (Some [32]) ''append'' 64
       = Some (Inl NoValidAllowed)
   \<and> normalize_zero_to_nine ninefold_grid
   \<and> char_energy latin1 ninefold_grid [32] = Inr 0"
proof -
  let ?P = "ninefold_grid\<lparr>normalize_zero_to_nine := False\<rparr>"
  have r: "optimize_attunement latin1 ?P [65] 2 (Some [32]) ''append'' 64
             = Some (Inl NoValidAllowed)" by code_simp
  have e: "char_energy latin1 ?P [46] = Inr 1" by code_simp
  then have d: "\<exists>c \<in> set default_symbols. char_energy latin1 ?P [c] \<noteq> Inr 0"
    by (auto simp: default_symbols_def)
  have r': "optimize_attunement latin1 ninefold_grid [65] 2 (Some [32]) ''append'' 64
              = Some (Inl NoValidAllowed)" by code_simp
  have nz: "normalize_zero_to_nine ninefold_grid" by (simp add: ninefold_grid_def)
  from empty_allowed_set[OF r] d
  obtain s where "Some [32] = Some s"
      and "\<forall>c \<in> set s. char_energy latin1 ?P [c] = Inr 0" by blast
  then have z: "char_energy latin1 ?P [32] = Inr 0" by auto
  from empty_allowed_set[OF r']
  have "\<forall>c \<in> set (allowed_or_default (Some [32])). char_energy latin1 ninefold_grid [c] = Inr 0"
    by blast
  then have z': "char_energy latin1 ninefold_grid [32] = Inr 0"
    by (simp add: allowed_or_default_def)
  from r e z r' nz z' show ?thesis by simp
qed

text \<open>
  C10 as stated fails under a principle that does not normalize zero and weighs
  symbols by 0: the six built-in symbols all have energy zero, and the call without
  allowed symbols raises the empty-allowed-set error.
\<close>

theorem default_symbols_counterexample:
  "optimize_attunement latin1
     (ninefold_grid\<lparr>normalize_zero_to_nine := False, weights := [''symbol'' \<mapsto> 0]\<rparr>)
     [65] 2 None ''append'' 64 = Some (Inl NoValidAllowed)"
  by code_simp

section \<open>The breadth-first search finds a shortest path\<close>

lemma tree_inv_dom: "tree_inv rs parent depth \<Longrightarrow> (depth v = None) = (parent v = None)"
  by (simp add: tree_inv_def)

lemma tree_inv_zero: "tree_inv rs parent depth \<Longrightarrow> parent 0 = Some (- 1, - 1) \<and> depth 0 = Some 0"
  by (simp add: tree_inv_def)

lemma tree_inv_edge:
  "tree_inv rs parent depth \<Longrightarrow> v \<noteq> 0 \<Longrightarrow> parent v = Some (u, i) \<Longrightarrow>
   0 \<le> i \<and> i < int (length rs) \<and> v = (u + rs ! nat i) mod 9 \<and>
   (\<exists>du. depth u = Some du \<and> 0 \<le> du \<and> depth v = Some (du + 1))"
  unfolding tree_inv_def by blast

lemma tree_inv_depth_nonneg:
  assumes "tree_inv rs parent depth" and "depth v = Some dv"
  shows "0 \<le> dv"
proof (cases "v = 0")
  case True
  with assms tree_inv_zero[OF assms(1)] show ?thesis by simp
next
  case False
  from assms tree_inv_dom[OF assms(1), of v] obtain u i where "parent v = Some (u, i)"
    by (cases "parent v") auto
  from tree_inv_edge[OF assms(1) False this] assms(2) show ?thesis by auto
qed

lemma is_path_snoc:
  "is_path rs (seq @ [i]) w \<longleftrightarrow>
     (\<exists>u. is_path rs seq u \<and> 0 \<le> i \<and> i < int (length rs) \<and> w = (u + rs ! nat i) mod 9)"
  by (auto simp: is_path_def mod_add_left_eq)

lemma path_discovered:
  assumes t: "tree_inv rs parent depth"
      and l: "level_inv rs max_steps depth cur d q"
      and ms: "d \<le> max_steps"
  shows "is_path rs seq w \<Longrightarrow> int (length seq) \<le> d \<Longrightarrow>
         \<exists>dw. depth w = Some dw \<and> dw \<le> int (length seq)"
proof (induction seq arbitrary: w rule: rev_induct)
  case Nil
  then have "w = 0" by (simp add: is_path_def)
  with tree_inv_zero[OF t] show ?case by simp
next
  case (snoc i seq)
  from snoc.prems(1) obtain u where u: "is_path rs seq u" and i: "0 \<le> i" "i < int (length rs)"
    and w: "w = (u + rs ! nat i) mod 9"
    by (auto simp: is_path_snoc)
  from snoc.prems(2) have len: "int (length seq) < d" by simp
  with snoc.IH[OF u] obtain du where du: "depth u = Some du" "du \<le> int (length seq)" by auto
  with len ms have "du < d" "du < max_steps" by auto
  with l du(1) have "closed rs depth u du" unfolding level_inv_def by blast
  moreover from i have "nat i < length rs" by simp
  ultimately obtain dw where "depth ((u + rs ! nat i) mod 9) = Some dw" "dw \<le> du + 1"
    unfolding closed_def by blast
  with w du(2) show ?case by auto
qed

lemma closed_mono:
  assumes "closed rs depth u du" and "depth w = None"
  shows "closed rs (depth(w \<mapsto> x)) u du"
  unfolding closed_def
proof (intro allI impI)
  fix i assume "i < length rs"
  with assms(1) obtain dw where dw: "depth ((u + rs ! i) mod 9) = Some dw" "dw \<le> du + 1"
    unfolding closed_def by blast
  with assms(2) have "(u + rs ! i) mod 9 \<noteq> w" by auto
  with dw show "\<exists>dw. (depth(w \<mapsto> x)) ((u + rs ! i) mod 9) = Some dw \<and> dw \<le> du + 1" by simp
qed

lemma discover_tree:
  assumes t: "tree_inv rs parent depth" and n: "parent nxt = None" and c: "depth cur = Some d"
      and i: "0 \<le> idx" "idx < int (length rs)" and e: "nxt = (cur + rs ! nat idx) mod 9"
  shows "tree_inv rs (parent(nxt \<mapsto> (cur, idx))) (depth(nxt \<mapsto> d + 1))"
proof -
  have dn: "depth nxt = None" using tree_inv_dom[OF t, of nxt] n by simp
  have nz: "nxt \<noteq> 0" using tree_inv_zero[OF t] n by auto
  have d0: "0 \<le> d" using tree_inv_depth_nonneg[OF t c] .
  have cn: "cur \<noteq> nxt" using c dn by auto
  show ?thesis
    unfolding tree_inv_def
  proof (intro conjI allI impI)
    show "(parent(nxt \<mapsto> (cur, idx))) 0 = Some (- 1, - 1)"
      using nz tree_inv_zero[OF t] by simp
    show "(depth(nxt \<mapsto> d + 1)) 0 = Some 0"
      using nz tree_inv_zero[OF t] by simp
  next
    fix v
    show "((depth(nxt \<mapsto> d + 1)) v = None) = ((parent(nxt \<mapsto> (cur, idx))) v = None)"
      using tree_inv_dom[OF t, of v] by simp
  next
    fix v u j
    assume v: "v \<noteq> 0" and p: "(parent(nxt \<mapsto> (cur, idx))) v = Some (u, j)"
    show "0 \<le> j" "j < int (length rs)" "v = (u + rs ! nat j) mod 9"
         "\<exists>du. (depth(nxt \<mapsto> d + 1)) u = Some du \<and> 0 \<le> du
               \<and> (depth(nxt \<mapsto> d + 1)) v = Some (du + 1)"
    proof -
      show "0 \<le> j" "j < int (length rs)" "v = (u + rs ! nat j) mod 9"
        using p i e tree_inv_edge[OF t v, of u j] by (auto split: if_splits)
      show "\<exists>du. (depth(nxt \<mapsto> d + 1)) u = Some du \<and> 0 \<le> du
               \<and> (depth(nxt \<mapsto> d + 1)) v = Some (du + 1)"
      proof (cases "v = nxt")
        case True
        with p have "u = cur" by simp
        with True c cn d0 show ?thesis by simp
      next
        case False
        with p have pv: "parent v = Some (u, j)" by simp
        from tree_inv_edge[OF t v pv] obtain du where
          du: "depth u = Some du" "0 \<le> du" "depth v = Some (du + 1)" by blast
        with dn have "u \<noteq> nxt" by auto
        with du False show ?thesis by simp
      qed
    qed
  qed
qed

lemma discover_level:
  assumes l: "level_inv rs max_steps depth cur d q" and dn: "depth nxt = None"
  shows "level_inv rs max_steps (depth(nxt \<mapsto> d + 1)) cur d (q @ [nxt])"
proof -
  from l obtain q1 q2 where q: "q = q1 @ q2" "\<forall>v \<in> set q1. depth v = Some d"
      "\<forall>v \<in> set q2. depth v = Some (d + 1)"
    unfolding level_inv_def by blast
  from l have c: "depth cur = Some d" and bound: "\<forall>v dv. depth v = Some dv \<longrightarrow> dv \<le> d + 1"
    and inq: "\<forall>v. depth v = Some (d + 1) \<longrightarrow> v \<in> set q"
    and cl: "\<forall>u du. depth u = Some du \<longrightarrow> du < max_steps \<longrightarrow>
          du < d \<or> (du = d \<and> u \<notin> set q \<and> u \<noteq> cur) \<longrightarrow> closed rs depth u du"
    unfolding level_inv_def by blast+
  let ?depth = "depth(nxt \<mapsto> d + 1)"
  have 1: "?depth cur = Some d" using c dn by auto
  have 2: "\<exists>q1 q2. q @ [nxt] = q1 @ q2 \<and> (\<forall>v \<in> set q1. ?depth v = Some d)
                \<and> (\<forall>v \<in> set q2. ?depth v = Some (d + 1))"
  proof (intro exI conjI)
    show "q @ [nxt] = q1 @ (q2 @ [nxt])" using q(1) by simp
    show "\<forall>v \<in> set q1. ?depth v = Some d" using q(2) dn by auto
    show "\<forall>v \<in> set (q2 @ [nxt]). ?depth v = Some (d + 1)" using q(3) dn by auto
  qed
  have 3: "\<forall>v dv. ?depth v = Some dv \<longrightarrow> dv \<le> d + 1" using bound by auto
  have 4: "\<forall>v. ?depth v = Some (d + 1) \<longrightarrow> v \<in> set (q @ [nxt])" using inq by auto
  have 5: "\<forall>u du. ?depth u = Some du \<longrightarrow> du < max_steps \<longrightarrow>
          du < d \<or> (du = d \<and> u \<notin> set (q @ [nxt]) \<and> u \<noteq> cur) \<longrightarrow> closed rs ?depth u du"
  proof (intro allI impI)
    fix u du
    assume a: "?depth u = Some du" "du < max_steps"
              "du < d \<or> (du = d \<and> u \<notin> set (q @ [nxt]) \<and> u \<noteq> cur)"
    from a(1) a(3) have "u \<noteq> nxt" by (auto split: if_splits)
    with a(1) have "depth u = Some du" by simp
    with cl a(2) a(3) have "closed rs depth u du" by auto
    then show "closed rs ?depth u du" by (rule closed_mono) (rule dn)
  qed
  show ?thesis unfolding level_inv_def using 1 2 3 4 5 by blast
qed

lemma enumerate_int_mem:
  assumes "(idx, r) \<in> set (enumerate_int rs)"
  shows "0 \<le> idx \<and> idx < int (length rs) \<and> rs ! nat idx = r"
proof -
  from assms obtain n where "map int [0..<length rs] ! n = idx" "rs ! n = r" "n < length rs"
    unfolding enumerate_int_def by (auto simp: in_set_zip)
  then show ?thesis by auto
qed

lemma enumerate_int_snd: "snd ` set (enumerate_int rs) = set rs"
proof -
  have "map snd (enumerate_int rs) = rs" by (simp add: enumerate_int_def)
  then show ?thesis by (metis set_map)
qed

lemma expand_Inr:
  "set ers \<subseteq> set (enumerate_int rs) \<Longrightarrow> tree_inv rs parent depth \<Longrightarrow>
   level_inv rs max_steps depth cur d q \<Longrightarrow>
   (\<forall>r \<in> R. \<exists>dw. depth ((cur + r) mod 9) = Some dw \<and> dw \<le> d + 1) \<Longrightarrow>
   expand delta cur d ers (parent, depth, q) = Inr (parent', depth', q') \<Longrightarrow>
   tree_inv rs parent' depth' \<and> level_inv rs max_steps depth' cur d q' \<and>
   (\<forall>r \<in> R \<union> snd ` set ers. \<exists>dw. depth' ((cur + r) mod 9) = Some dw \<and> dw \<le> d + 1)"
proof (induction ers arbitrary: parent depth q R)
  case Nil
  then show ?case by simp
next
  case (Cons a ers)
  obtain idx r where a: "a = (idx, r)" by (cases a)
  let ?nxt = "(cur + r) mod 9"
  from Cons.prems(1) a have sub: "set ers \<subseteq> set (enumerate_int rs)"
    and ir: "0 \<le> idx" "idx < int (length rs)" "rs ! nat idx = r"
    using enumerate_int_mem[of idx r rs] by auto
  note t = Cons.prems(2) and l = Cons.prems(3) and R = Cons.prems(4)
  from l have c: "depth cur = Some d" and bound: "\<forall>v dv. depth v = Some dv \<longrightarrow> dv \<le> d + 1"
    unfolding level_inv_def by blast+
  show ?case
  proof (cases "parent ?nxt = None")
    case False
    with Cons.prems(5) a have ex:
      "expand delta cur d ers (parent, depth, q) = Inr (parent', depth', q')"
      by (simp add: Let_def)
    from False tree_inv_dom[OF t, of ?nxt] obtain dw where dw: "depth ?nxt = Some dw" by auto
    with bound have "dw \<le> d + 1" by blast
    with dw R have R': "\<forall>r \<in> insert r R. \<exists>dw. depth ((cur + r) mod 9) = Some dw \<and> dw \<le> d + 1"
      by auto
    from Cons.IH[OF sub t l R' ex] a show ?thesis by simp
  next
    case True
    with Cons.prems(5) a have ne: "?nxt \<noteq> delta"
      by (auto simp: Let_def split: if_splits)
    with Cons.prems(5) a True have ex:
      "expand delta cur d ers
         (parent(?nxt \<mapsto> (cur, idx)), depth(?nxt \<mapsto> d + 1), q @ [?nxt]) = Inr (parent', depth', q')"
      by (simp add: Let_def)
    have dn: "depth ?nxt = None" using tree_inv_dom[OF t, of ?nxt] True by simp
    have t': "tree_inv rs (parent(?nxt \<mapsto> (cur, idx))) (depth(?nxt \<mapsto> d + 1))"
      by (rule discover_tree[OF t True c ir(1) ir(2)]) (simp add: ir(3))
    have l': "level_inv rs max_steps (depth(?nxt \<mapsto> d + 1)) cur d (q @ [?nxt])"
      by (rule discover_level[OF l dn])
    have R': "\<forall>r \<in> insert r R. \<exists>dw. (depth(?nxt \<mapsto> d + 1)) ((cur + r) mod 9) = Some dw \<and> dw \<le> d + 1"
      using R by auto
    from Cons.IH[OF sub t' l' R' ex] a show ?thesis by simp
  qed
qed

lemma expand_Inl:
  "set ers \<subseteq> set (enumerate_int rs) \<Longrightarrow> tree_inv rs parent depth \<Longrightarrow>
   level_inv rs max_steps depth cur d q \<Longrightarrow> d < max_steps \<Longrightarrow>
   expand delta cur d ers (parent, depth, q) = Inl (parent', depth', q') \<Longrightarrow>
   tree_inv rs parent' depth' \<and> depth' delta = Some (d + 1) \<and>
   (\<forall>seq. is_path rs seq delta \<longrightarrow> d + 1 \<le> int (length seq))"
proof (induction ers arbitrary: parent depth q)
  case Nil
  then show ?case by simp
next
  case (Cons a ers)
  obtain idx r where a: "a = (idx, r)" by (cases a)
  let ?nxt = "(cur + r) mod 9"
  from Cons.prems(1) a have sub: "set ers \<subseteq> set (enumerate_int rs)"
    and ir: "0 \<le> idx" "idx < int (length rs)" "rs ! nat idx = r"
    using enumerate_int_mem[of idx r rs] by auto
  note t = Cons.prems(2) and l = Cons.prems(3) and ms = Cons.prems(4)
  from l have c: "depth cur = Some d" unfolding level_inv_def by blast
  show ?case
  proof (cases "parent ?nxt = None")
    case False
    with Cons.prems(5) a have ex:
      "expand delta cur d ers (parent, depth, q) = Inl (parent', depth', q')"
      by (simp add: Let_def)
    from Cons.IH[OF sub t l ms ex] show ?thesis .
  next
    case True
    have dn: "depth ?nxt = None" using tree_inv_dom[OF t, of ?nxt] True by simp
    have t': "tree_inv rs (parent(?nxt \<mapsto> (cur, idx))) (depth(?nxt \<mapsto> d + 1))"
      by (rule discover_tree[OF t True c ir(1) ir(2)]) (simp add: ir(3))
    show ?thesis
    proof (cases "?nxt = delta")
      case False
      with Cons.prems(5) a True have ex:
        "expand delta cur d ers
           (parent(?nxt \<mapsto> (cur, idx)), depth(?nxt \<mapsto> d + 1), q @ [?nxt]) = Inl (parent', depth', q')"
        by (simp add: Let_def)
      have l': "level_inv rs max_steps (depth(?nxt \<mapsto> d + 1)) cur d (q @ [?nxt])"
        by (rule discover_level[OF l dn])
      from Cons.IH[OF sub t' l' ms ex] show ?thesis .
    next
      case found: True
      with Cons.prems(5) a True have
        eq: "parent' = parent(?nxt \<mapsto> (cur, idx))" "depth' = depth(?nxt \<mapsto> d + 1)"
        by (simp_all add: Let_def)
      have short: "\<forall>seq. is_path rs seq delta \<longrightarrow> d + 1 \<le> int (length seq)"
      proof (intro allI impI, rule ccontr)
        fix seq assume p: "is_path rs seq delta" and "\<not> d + 1 \<le> int (length seq)"
        then have "int (length seq) \<le> d" by simp
        from path_discovered[OF t l _ p this] ms obtain dw where "depth delta = Some dw" by auto
        with dn found show False by simp
      qed
      have "tree_inv rs parent' depth'" using t' eq by simp
      moreover have "depth' delta = Some (d + 1)" using eq found by simp
      ultimately show ?thesis using short by blast
    qed
  qed
qed

lemma level_next:
  assumes l: "level_inv rs max_steps depth cur d (cur' # q)"
      and cl: "d < max_steps \<Longrightarrow> closed rs depth cur d"
  shows "\<exists>d'. level_inv rs max_steps depth cur' d' q"
proof -
  from l obtain q1 q2 where q: "cur' # q = q1 @ q2" "\<forall>v \<in> set q1. depth v = Some d"
      "\<forall>v \<in> set q2. depth v = Some (d + 1)"
    unfolding level_inv_def by blast
  from l have c: "depth cur = Some d" and bound: "\<forall>v dv. depth v = Some dv \<longrightarrow> dv \<le> d + 1"
    and inq: "\<forall>v. depth v = Some (d + 1) \<longrightarrow> v \<in> set (cur' # q)"
    and cl5: "\<forall>u du. depth u = Some du \<longrightarrow> du < max_steps \<longrightarrow>
          du < d \<or> (du = d \<and> u \<notin> set (cur' # q) \<and> u \<noteq> cur) \<longrightarrow> closed rs depth u du"
    unfolding level_inv_def by blast+
  show ?thesis
  proof (cases q1)
    case Nil
    with q have q2: "q2 = cur' # q" by simp
    with q(3) have c': "depth cur' = Some (d + 1)" and all: "\<forall>v \<in> set q. depth v = Some (d + 1)"
      by auto
    have 2: "\<exists>q1 q2. q = q1 @ q2 \<and> (\<forall>v \<in> set q1. depth v = Some (d + 1))
                \<and> (\<forall>v \<in> set q2. depth v = Some (d + 1 + 1))"
      using all by (intro exI[of _ q] exI[of _ "[]"]) simp
    have 3: "\<forall>v dv. depth v = Some dv \<longrightarrow> dv \<le> d + 1 + 1" using bound by fastforce
    have 4: "\<forall>v. depth v = Some (d + 1 + 1) \<longrightarrow> v \<in> set q" using bound by fastforce
    have 5: "\<forall>u du. depth u = Some du \<longrightarrow> du < max_steps \<longrightarrow>
          du < d + 1 \<or> (du = d + 1 \<and> u \<notin> set q \<and> u \<noteq> cur') \<longrightarrow> closed rs depth u du"
    proof (intro allI impI)
      fix u du
      assume a: "depth u = Some du" "du < max_steps"
                "du < d + 1 \<or> (du = d + 1 \<and> u \<notin> set q \<and> u \<noteq> cur')"
      from a(3) inq a(1) have "du < d + 1" by auto
      then consider "du < d" | "du = d" "u = cur" | "du = d" "u \<noteq> cur" by linarith
      then show "closed rs depth u du"
      proof cases
        case 1
        with cl5 a show ?thesis by blast
      next
        case 2
        with cl a(2) show ?thesis by simp
      next
        case 3
        have "u \<notin> set (cur' # q)"
        proof
          assume "u \<in> set (cur' # q)"
          with c' all have "depth u = Some (d + 1)" by auto
          with a(1) 3(1) show False by simp
        qed
        with cl5 a(1) a(2) 3 show ?thesis by blast
      qed
    qed
    have "level_inv rs max_steps depth cur' (d + 1) q"
      unfolding level_inv_def using c' 2 3 4 5 by blast
    then show ?thesis ..
  next
    case (Cons x q1')
    with q have x: "x = cur'" and q': "q = q1' @ q2" by auto
    from Cons x q(2) have c': "depth cur' = Some d" and q1': "\<forall>v \<in> set q1'. depth v = Some d"
      by auto
    have 2: "\<exists>q1 q2. q = q1 @ q2 \<and> (\<forall>v \<in> set q1. depth v = Some d)
                \<and> (\<forall>v \<in> set q2. depth v = Some (d + 1))"
      using q' q1' q(3) by blast
    have 4: "\<forall>v. depth v = Some (d + 1) \<longrightarrow> v \<in> set q" using inq c' by auto
    have 5: "\<forall>u du. depth u = Some du \<longrightarrow> du < max_steps \<longrightarrow>
          du < d \<or> (du = d \<and> u \<notin> set q \<and> u \<noteq> cur') \<longrightarrow> closed rs depth u du"
    proof (intro allI impI)
      fix u du
      assume a: "depth u = Some du" "du < max_steps"
                "du < d \<or> (du = d \<and> u \<notin> set q \<and> u \<noteq> cur')"
      then consider "du < d" | "du = d" "u = cur" | "du = d" "u \<noteq> cur" "u \<notin> set (cur' # q)"
        by auto
      then show "closed rs depth u du"
      proof cases
        case 1
        with cl5 a show ?thesis by blast
      next
        case 2
        with cl a(2) show ?thesis by simp
      next
        case 3
        with cl5 a(1) a(2) show ?thesis by blast
      qed
    qed
    have "level_inv rs max_steps depth cur' d q"
      unfolding level_inv_def using c' 2 bound 4 5 by blast
    then show ?thesis ..
  qed
qed

lemma head_next:
  assumes "level_inv rs max_steps depth cur d q" and "d < max_steps \<Longrightarrow> closed rs depth cur d"
  shows "head_inv rs max_steps depth q"
proof (cases q)
  case Nil
  then show ?thesis by (simp add: head_inv_def)
next
  case (Cons cur' q')
  with level_next[of rs max_steps depth cur d cur' q'] assms show ?thesis
    by (simp add: head_inv_def)
qed

lemma bfs_loop_found:
  "tree_inv rs parent depth \<Longrightarrow> head_inv rs max_steps depth q \<Longrightarrow>
   bfs_loop delta rs max_steps parent depth q = Inr (Some (parent', nxt)) \<Longrightarrow>
   nxt = delta \<and> (\<exists>depth' dd. tree_inv rs parent' depth' \<and> depth' delta = Some dd
                      \<and> (\<forall>seq. is_path rs seq delta \<longrightarrow> dd \<le> int (length seq)))"
proof (induction delta rs max_steps parent depth q rule: bfs_loop.induct)
  case (1 delta rs max_steps parent depth)
  then show ?case by simp
next
  case (2 delta rs max_steps parent depth cur q)
  from "2.prems"(2) obtain d where l: "level_inv rs max_steps depth cur d q"
    by (auto simp: head_inv_def)
  then have c: "depth cur = Some d" unfolding level_inv_def by blast
  show ?case
  proof (cases "d \<ge> max_steps")
    case True
    with "2.prems"(3) c have r: "bfs_loop delta rs max_steps parent depth q = Inr (Some (parent', nxt))"
      by simp
    have h: "head_inv rs max_steps depth q"
      by (rule head_next[OF l]) (use True in simp)
    from "2.IH"(1)[OF c True "2.prems"(1) h r] show ?thesis .
  next
    case False
    then have ms: "d < max_steps" by simp
    show ?thesis
    proof (cases "expand delta cur d (enumerate_int rs) (parent, depth, q)")
      case (Inl st)
      obtain p1 d1 q1 where st: "st = (p1, d1, q1)" by (cases st)
      with "2.prems"(3) c False Inl have eq: "parent' = p1" "nxt = delta" by simp_all
      from expand_Inl[OF subset_refl "2.prems"(1) l ms Inl[unfolded st]] eq
      show ?thesis by blast
    next
      case (Inr st)
      obtain p1 d1 q1 where st: "st = (p1, d1, q1)" by (cases st)
      with "2.prems"(3) c False Inr have
        r: "bfs_loop delta rs max_steps p1 d1 q1 = Inr (Some (parent', nxt))" by simp
      from expand_Inr[OF subset_refl "2.prems"(1) l _ Inr[unfolded st], of "{}"]
      have t1: "tree_inv rs p1 d1" and l1: "level_inv rs max_steps d1 cur d q1"
        and cl: "\<forall>r \<in> snd ` set (enumerate_int rs). \<exists>dw. d1 ((cur + r) mod 9) = Some dw \<and> dw \<le> d + 1"
        by auto
      have "closed rs d1 cur d"
        unfolding closed_def using cl by (simp add: enumerate_int_snd)
      then have h1: "head_inv rs max_steps d1 q1"
        using head_next[OF l1] by blast
      from "2.IH"(2)[OF c False Inr st[symmetric] refl t1 h1 r] show ?thesis .
    qed
  qed
qed

lemma walk_parent_tree:
  assumes t: "tree_inv rs parent depth"
  shows "depth v = Some dv \<Longrightarrow>
         \<exists>path. walk_parent parent v acc = Some (Inr (acc @ path)) \<and> int (length path) = dv
                \<and> is_path rs (rev path) v"
proof (induction "nat dv" arbitrary: v dv acc)
  case 0
  have nn: "0 \<le> dv" using tree_inv_depth_nonneg[OF t "0.prems"] .
  with "0.hyps" have dv: "dv = 0" by simp
  have "v = 0"
  proof (rule ccontr)
    assume v: "v \<noteq> 0"
    from "0.prems" tree_inv_dom[OF t, of v] obtain u i where p: "parent v = Some (u, i)"
      by (cases "parent v") auto
    from tree_inv_edge[OF t v p] "0.prems" dv show False by auto
  qed
  then have "walk_parent parent v acc = Some (Inr (acc @ []))"
    by (subst walk_parent.simps) simp
  moreover have "is_path rs (rev []) v" using \<open>v = 0\<close> by (simp add: is_path_def)
  ultimately show ?case using dv by (intro exI[of _ "[]"]) simp
next
  case (Suc n)
  then have dv: "1 \<le> dv" by simp
  with Suc.prems tree_inv_zero[OF t] have v: "v \<noteq> 0" by auto
  from Suc.prems tree_inv_dom[OF t, of v] obtain u i where p: "parent v = Some (u, i)"
    by (cases "parent v") auto
  from tree_inv_edge[OF t v p] Suc.prems obtain du where
    i: "0 \<le> i" "i < int (length rs)" and e: "v = (u + rs ! nat i) mod 9"
    and du: "depth u = Some du" "dv = du + 1" "0 \<le> du" by auto
  from Suc.hyps(2) du have "n = nat du" by simp
  from Suc.hyps(1)[OF this du(1), of "acc @ [i]"] obtain path where
    w: "walk_parent parent u (acc @ [i]) = Some (Inr ((acc @ [i]) @ path))"
    and len: "int (length path) = du" and ip: "is_path rs (rev path) u" by blast
  have "walk_parent parent v acc = walk_parent parent u (acc @ [i])"
    using v p by (subst walk_parent.simps) simp
  with w have "walk_parent parent v acc = Some (Inr (acc @ (i # path)))" by simp
  moreover have "int (length (i # path)) = dv" using len du(2) by simp
  moreover have "is_path rs (rev (i # path)) v"
    using ip i e by (auto simp: is_path_snoc)
  ultimately show ?case by blast
qed

lemma initial_invariants:
  "tree_inv rs [0 \<mapsto> (- 1, - 1)] [0 \<mapsto> 0] \<and> head_inv rs max_steps [0 \<mapsto> 0] [0]"
proof
  show "tree_inv rs [0 \<mapsto> (- 1, - 1)] [0 \<mapsto> 0]"
    by (simp add: tree_inv_def)
  have "level_inv rs max_steps [0 \<mapsto> 0] 0 0 []"
    unfolding level_inv_def by (auto split: if_splits)
  then show "head_inv rs max_steps [0 \<mapsto> 0] [0]"
    by (auto simp: head_inv_def)
qed

lemma minimal_residue_combo_shortest:
  assumes "minimal_residue_combo delta allowed max_steps = Some (Inr (Some seq))"
  shows "shortest_path (map (\<lambda>(s, e). e mod 9) allowed) delta seq"
proof (cases "delta = 0")
  case True
  with assms have "seq = []" by (simp add: minimal_residue_combo_def Let_def)
  with True show ?thesis by (simp add: shortest_path_def is_path_def)
next
  case False
  let ?rs = "map (\<lambda>(s, e). e mod 9) allowed"
  from assms False obtain parent' nxt where
    b: "bfs_loop delta ?rs max_steps [0 \<mapsto> (- 1, - 1)] [0 \<mapsto> 0] [0] = Inr (Some (parent', nxt))"
    and w: "walk_parent parent' nxt [] = Some (Inr (rev seq))"
    unfolding minimal_residue_combo_def Let_def
    by (auto split: if_splits sum.splits option.splits)
  from initial_invariants[of ?rs max_steps] bfs_loop_found[OF _ _ b]
  obtain depth' dd where nxt: "nxt = delta" and t: "tree_inv ?rs parent' depth'"
    and dd: "depth' delta = Some dd"
    and short: "\<forall>seq. is_path ?rs seq delta \<longrightarrow> dd \<le> int (length seq)" by blast
  from walk_parent_tree[OF t dd, of "[]"] w nxt
  have "int (length (rev seq)) = dd" and "is_path ?rs (rev (rev seq)) delta" by auto
  with short show ?thesis by (auto simp: shortest_path_def)
qed

lemma tally_eq:
  "tally seq counts i =
     (if i \<in> set seq
      then Some ((case counts i of None \<Rightarrow> 0 | Some c \<Rightarrow> c) + int (count_list seq i))
      else counts i)"
  by (induction seq arbitrary: counts) auto

lemma emit_steps_sum:
  "sum_list (map snd (emit_steps counts ers))
     = sum_list (map (\<lambda>i. case counts i of None \<Rightarrow> 0 | Some c \<Rightarrow> c) (map fst ers))"
  by (induction counts ers rule: emit_steps.induct) (auto split: option.splits)

lemma indicator_sum:
  assumes "k < n"
  shows "(\<Sum>i\<leftarrow>[0..<n]. if int k = int i then 1 else 0) = (1::int)"
proof -
  have "(\<Sum>i\<leftarrow>[0..<n]. if int k = int i then 1 else 0)
          = (\<Sum>i \<in> {0..<n}. if k = i then 1 else (0::int))"
    by (simp add: interv_sum_list_conv_sum_set_nat)
  also have "\<dots> = 1" using assms by simp
  finally show ?thesis .
qed

lemma count_sum:
  "\<forall>i \<in> set seq. 0 \<le> i \<and> i < int n \<Longrightarrow>
   (\<Sum>i\<leftarrow>[0..<n]. int (count_list seq (int i))) = int (length seq)"
proof (induction seq)
  case Nil
  then show ?case by simp
next
  case (Cons x seq)
  then obtain k where k: "x = int k" "k < n"
    by (metis list.set_intros(1) nat_less_iff int_nat_eq)
  have "(\<Sum>i\<leftarrow>[0..<n]. int (count_list (x # seq) (int i)))
          = (\<Sum>i\<leftarrow>[0..<n]. (if int k = int i then 1 else 0) + int (count_list seq (int i)))"
    using k by (intro arg_cong[where f = sum_list] map_cong) auto
  also have "\<dots> = (\<Sum>i\<leftarrow>[0..<n]. if int k = int i then 1 else 0)
                    + (\<Sum>i\<leftarrow>[0..<n]. int (count_list seq (int i)))"
    by (simp add: sum_list_addf)
  also have "\<dots> = 1 + int (length seq)"
    using indicator_sum[OF k(2)] Cons by simp
  finally show ?case by simp
qed

lemma build_steps_count:
  assumes "\<forall>i \<in> set seq. 0 \<le> i \<and> i < int (length allowed)"
  shows "sum_list (map snd (build_steps_from_seq seq allowed)) = int (length seq)"
proof -
  have f: "map fst (enumerate_int allowed) = map int [0..<length allowed]"
    by (simp add: enumerate_int_def)
  have "sum_list (map snd (build_steps_from_seq seq allowed))
          = (\<Sum>i\<leftarrow>[0..<length allowed]. case tally seq Map.empty (int i) of None \<Rightarrow> 0 | Some c \<Rightarrow> c)"
    by (simp add: build_steps_from_seq_def emit_steps_sum f comp_def)
  also have "\<dots> = (\<Sum>i\<leftarrow>[0..<length allowed]. int (count_list seq (int i)))"
    by (intro arg_cong[where f = sum_list] map_cong) (auto simp: tally_eq)
  also have "\<dots> = int (length seq)" by (rule count_sum[OF assms])
  finally show ?thesis .
qed

lemma weighted_nonneg: "0 \<le> weighted P k b"
  using digital_root_range by (simp add: weighted_def Let_def)

lemma char_energy_nonneg: "char_energy U P s = Inr e \<Longrightarrow> 0 \<le> e"
  unfolding char_energy_def
  by (auto split: if_splits sum.splits option.splits simp: weighted_nonneg)

lemma energy_sum_nonneg: "energy_sum U P acc s = Inr e \<Longrightarrow> 0 \<le> acc \<Longrightarrow> 0 \<le> e"
proof (induction s arbitrary: acc)
  case Nil
  then show ?case by simp
next
  case (Cons c s)
  then show ?case
    by (auto split: sum.splits dest!: char_energy_nonneg)
qed

lemma string_energy_nonneg: "string_energy U P s = Inr (tot, dr) \<Longrightarrow> 0 \<le> tot"
  by (auto simp: string_energy_def split: sum.splits dest: energy_sum_nonneg)

lemma string_energy_dr:
  "string_energy U P s = Inr (tot, dr) \<Longrightarrow> dr = digital_root tot (normalize_zero_to_nine P)"
  by (auto simp: string_energy_def split: sum.splits)

lemma attuned_residue:
  assumes "string_energy U P s = Inr (tot, dr)" and "dr = tgt"
  shows "target_residue tot tgt = 0"
proof -
  have "0 \<le> tot" using string_energy_nonneg[OF assms(1)] .
  moreover have "tgt mod 9 = \<bar>tot\<bar> mod 9"
    using string_energy_dr[OF assms(1)] assms(2) digital_root_cong_abs by metis
  ultimately show ?thesis
    by (simp add: target_residue_def residue_def Let_def)
qed

lemma optimize_attunement_Inr:
  assumes r: "optimize_attunement U P text tgt allowed_symbols meth max_steps = Some (Inr plan)"
      and se: "string_energy U P text = Inr (tot, dr)"
  shows "(dr = tgt \<and> steps plan = []) \<or>
         (\<exists>allowed seq. collect_allowed U P (allowed_or_default allowed_symbols) = Inr allowed
            \<and> minimal_residue_combo (target_residue tot tgt) allowed max_steps = Some (Inr (Some seq))
            \<and> steps plan = build_steps_from_seq seq allowed)"
proof -
  have rng: "1 \<le> tgt \<and> tgt \<le> 9"
    using r se by (auto simp: optimize_attunement_def split: if_splits)
  show ?thesis
  proof (cases "dr = tgt")
    case True
    with r se rng show ?thesis by (auto simp: optimize_attunement_def)
  next
    case ne: False
    show ?thesis
    proof (cases "collect_allowed U P (allowed_or_default allowed_symbols)")
      case (Inl err)
      with r se rng ne show ?thesis by (simp add: optimize_attunement_def)
    next
      case (Inr allowed)
      show ?thesis
      proof (cases "allowed = []")
        case True
        with r se rng ne Inr show ?thesis by (simp add: optimize_attunement_def)
      next
        case False
        show ?thesis
        proof (cases "minimal_residue_combo (target_residue tot tgt) allowed max_steps")
          case None
          with r se rng ne Inr False show ?thesis
            by (simp add: optimize_attunement_def Let_def)
        next
          case (Some res)
          show ?thesis
          proof (cases res)
            case (Inl err)
            with r se rng ne Inr False Some show ?thesis
              by (simp add: optimize_attunement_def Let_def)
          next
            case res: (Inr found)
            show ?thesis
            proof (cases found)
              case None
              with r se rng ne Inr False Some res show ?thesis
                by (simp add: optimize_attunement_def Let_def)
            next
              case seq: (Some seq)
              show ?thesis
              proof (cases "added_energy U P 0 (build_steps_from_seq seq allowed)")
                case (Inl err)
                with r se rng ne Inr False Some res seq show ?thesis
                  by (simp add: optimize_attunement_def Let_def)
              next
                case added: (Inr added)
                with r se rng ne Inr False Some res seq
                have "steps plan = build_steps_from_seq seq allowed"
                  by (auto simp: optimize_attunement_def Let_def)
                with Inr Some res seq show ?thesis by blast
              qed
            qed
          qed
        qed
      qed
    qed
  qed
qed

lemma attunement_minimal:
  assumes r: "optimize_attunement U P text tgt allowed_symbols meth max_steps = Some (Inr plan)"
      and se: "string_energy U P text = Inr (tot, dr)"
      and ca: "collect_allowed U P (allowed_or_default allowed_symbols) = Inr allowed"
  shows "\<exists>seq. shortest_path (map (\<lambda>(s, e). e mod 9) allowed) (target_residue tot tgt) seq
               \<and> insertion_count plan = int (length seq)"
proof -
  from optimize_attunement_Inr[OF r se] show ?thesis
  proof
    assume a: "dr = tgt \<and> steps plan = []"
    then have "target_residue tot tgt = 0" using attuned_residue[OF se] by simp
    then have "shortest_path (map (\<lambda>(s, e). e mod 9) allowed) (target_residue tot tgt) []"
      by (simp add: shortest_path_def is_path_def)
    with a show ?thesis by (auto simp: insertion_count_def)
  next
    assume "\<exists>allowed seq. collect_allowed U P (allowed_or_default allowed_symbols) = Inr allowed
            \<and> minimal_residue_combo (target_residue tot tgt) allowed max_steps = Some (Inr (Some seq))
            \<and> steps plan = build_steps_from_seq seq allowed"
    with ca obtain seq where
      m: "minimal_residue_combo (target_residue tot tgt) allowed max_steps = Some (Inr (Some seq))"
      and s: "steps plan = build_steps_from_seq seq allowed" by auto
    from minimal_residue_combo_shortest[OF m]
    have sp: "shortest_path (map (\<lambda>(s, e). e mod 9) allowed) (target_residue tot tgt) seq" .
    then have "\<forall>i \<in> set seq. 0 \<le> i \<and> i < int (length allowed)"
      by (simp add: shortest_path_def is_path_def)
    from build_steps_count[OF this] s have "insertion_count plan = int (length seq)"
      by (simp add: insertion_count_def)
    with sp show ?thesis by blast
  qed
qed

section \<open>The dynamic program and the chain it walks\<close>

lemma chain_distinct: "chain best \<Longrightarrow> distinct (map fst best)"
  unfolding chain_def by blast

lemma chain_zero: "chain best \<Longrightarrow> entry_le best 0 0"
  unfolding chain_def by blast

lemma chain_nonneg: "chain best \<Longrightarrow> map_of best a = Some e \<Longrightarrow> 0 \<le> fst e"
  unfolding chain_def by blast

lemma chain_prev:
  "chain best \<Longrightarrow> map_of best a = Some e \<Longrightarrow> a \<noteq> 0 \<Longrightarrow>
   entry_le best (fst (snd e)) (fst e - 1)"
  unfolding chain_def by blast

lemma dominates_refl: "dominates best best"
  by (simp add: dominates_def)

lemma dominates_trans: "dominates a b \<Longrightarrow> dominates b c \<Longrightarrow> dominates a c"
  by (simp add: dominates_def)

lemma entry_le_mono: "entry_le best k n \<Longrightarrow> n \<le> m \<Longrightarrow> entry_le best k m"
  unfolding entry_le_def by force

lemma update_step:
  assumes ch: "chain nb" and res: "entry_le nb res cnt" and cnt: "0 \<le> cnt"
      and upd: "case map_of nb nr of None \<Rightarrow> True | Some (c, _) \<Rightarrow> cnt + 1 < c"
  shows "chain (AList.update nr (cnt + 1, res, info) nb)
       \<and> dominates nb (AList.update nr (cnt + 1, res, info) nb)
       \<and> entry_le (AList.update nr (cnt + 1, res, info) nb) nr (cnt + 1)"
proof -
  let ?nb = "AList.update nr (cnt + 1, res, info) nb"
  have m: "map_of ?nb = (map_of nb)(nr \<mapsto> (cnt + 1, res, info))"
    by (simp add: update_conv')
  have old: "map_of nb nr = Some e \<Longrightarrow> cnt + 1 < fst e" for e
    using upd by (simp add: case_prod_beta)
  have nrres: "nr \<noteq> res"
  proof
    assume "nr = res"
    moreover from res obtain e where "map_of nb res = Some e" "fst e \<le> cnt"
      unfolding entry_le_def by blast
    ultimately show False using old[of e] by simp
  qed
  have nr0: "nr \<noteq> 0"
  proof
    assume "nr = 0"
    moreover from ch obtain e where "map_of nb 0 = Some e" "fst e \<le> 0"
      unfolding chain_def entry_le_def by blast
    ultimately show False using old[of e] cnt by simp
  qed
  have dom: "dominates nb ?nb"
    unfolding dominates_def entry_le_def
  proof (intro allI impI)
    fix k n
    assume "\<exists>e. map_of nb k = Some e \<and> fst e \<le> n"
    then obtain e where e: "map_of nb k = Some e" "fst e \<le> n" by blast
    show "\<exists>e. map_of ?nb k = Some e \<and> fst e \<le> n"
    proof (cases "k = nr")
      case True
      with e old[of e] have "cnt + 1 < fst e" by simp
      with e True show ?thesis by (simp add: m)
    next
      case False
      with e show ?thesis by (simp add: m)
    qed
  qed
  have e: "entry_le ?nb nr (cnt + 1)" by (simp add: entry_le_def m)
  have "chain ?nb"
    unfolding chain_def
  proof (intro conjI allI impI)
    show "distinct (map fst ?nb)" using ch by (simp add: chain_def distinct_update)
    show "entry_le ?nb 0 0" using ch dom by (simp add: chain_def dominates_def)
  next
    fix a e
    assume a: "map_of ?nb a = Some e"
    show "0 \<le> fst e"
    proof (cases "a = nr")
      case True
      with a cnt show ?thesis by (auto simp: m)
    next
      case False
      with a have "map_of nb a = Some e" by (simp add: m)
      with ch show ?thesis unfolding chain_def by blast
    qed
  next
    fix a e
    assume a: "map_of ?nb a = Some e" and a0: "a \<noteq> 0"
    show "entry_le ?nb (fst (snd e)) (fst e - 1)"
    proof (cases "a = nr")
      case True
      with a have "fst e = cnt + 1" "fst (snd e) = res" by (auto simp: m)
      with res dom show ?thesis by (simp add: dominates_def)
    next
      case False
      with a have "map_of nb a = Some e" by (simp add: m)
      with ch a0 have "entry_le nb (fst (snd e)) (fst e - 1)" unfolding chain_def by blast
      with dom show ?thesis by (simp add: dominates_def)
    qed
  qed
  with dom e show ?thesis by blast
qed

lemma dp_options_props:
  "chain nb \<Longrightarrow> entry_le nb res cnt \<Longrightarrow> 0 \<le> cnt \<Longrightarrow>
   chain (dp_options max_edits i res cnt opts nb)
   \<and> dominates nb (dp_options max_edits i res cnt opts nb)
   \<and> (\<forall>(r, repl) \<in> set opts. cnt + 1 \<le> max_edits \<longrightarrow>
         entry_le (dp_options max_edits i res cnt opts nb) ((res + r) mod 9) (cnt + 1))"
proof (induction opts arbitrary: nb)
  case Nil
  then show ?case by (simp add: dominates_refl)
next
  case (Cons a opts)
  obtain r repl where a: "a = (r, repl)" by (cases a)
  let ?nr = "(res + r) mod 9"
  show ?case
  proof (cases "cnt + 1 > max_edits")
    case True
    with Cons a show ?thesis by (auto simp: Let_def)
  next
    case le: False
    show ?thesis
    proof (cases "case map_of nb ?nr of None \<Rightarrow> True | Some (c, _) \<Rightarrow> cnt + 1 < c")
      case True
      let ?nb = "AList.update ?nr (cnt + 1, res, (i, r, repl)) nb"
      from update_step[OF Cons.prems(1) Cons.prems(2) Cons.prems(3) True, of "(i, r, repl)"]
      have c1: "chain ?nb" and d1: "dominates nb ?nb" and e1: "entry_le ?nb ?nr (cnt + 1)"
        by blast+
      from d1 Cons.prems(2) have r1: "entry_le ?nb res cnt" by (simp add: dominates_def)
      from Cons.IH[OF c1 r1 Cons.prems(3)]
      have c2: "chain (dp_options max_edits i res cnt opts ?nb)"
        and d2: "dominates ?nb (dp_options max_edits i res cnt opts ?nb)"
        and o2: "\<forall>(r, repl) \<in> set opts. cnt + 1 \<le> max_edits \<longrightarrow>
                   entry_le (dp_options max_edits i res cnt opts ?nb) ((res + r) mod 9) (cnt + 1)"
        by blast+
      have eq: "dp_options max_edits i res cnt (a # opts) nb
                  = dp_options max_edits i res cnt opts ?nb"
        using a le True by (simp add: Let_def)
      from d2 e1 have "entry_le (dp_options max_edits i res cnt opts ?nb) ?nr (cnt + 1)"
        by (simp add: dominates_def)
      with c2 d1 d2 o2 a show ?thesis
        unfolding eq by (auto intro: dominates_trans)
    next
      case False
      then have e1: "entry_le nb ?nr (cnt + 1)"
        unfolding entry_le_def by (auto split: option.splits simp: case_prod_beta)
      from Cons.IH[OF Cons.prems]
      have c2: "chain (dp_options max_edits i res cnt opts nb)"
        and d2: "dominates nb (dp_options max_edits i res cnt opts nb)"
        and o2: "\<forall>(r, repl) \<in> set opts. cnt + 1 \<le> max_edits \<longrightarrow>
                   entry_le (dp_options max_edits i res cnt opts nb) ((res + r) mod 9) (cnt + 1)"
        by blast+
      have eq: "dp_options max_edits i res cnt (a # opts) nb
                  = dp_options max_edits i res cnt opts nb"
        using a le False by (simp add: Let_def)
      from d2 e1 have "entry_le (dp_options max_edits i res cnt opts nb) ?nr (cnt + 1)"
        by (simp add: dominates_def)
      with c2 d2 o2 a show ?thesis
        unfolding eq by auto
    qed
  qed
qed

lemma dp_states_props:
  "chain nb \<Longrightarrow> (\<forall>(res, e) \<in> set items. 0 \<le> fst e \<and> entry_le nb res (fst e)) \<Longrightarrow>
   chain (dp_states max_edits i opts items nb)
   \<and> dominates nb (dp_states max_edits i opts items nb)
   \<and> (\<forall>(res, e) \<in> set items. \<forall>(r, repl) \<in> set opts. fst e + 1 \<le> max_edits \<longrightarrow>
         entry_le (dp_states max_edits i opts items nb) ((res + r) mod 9) (fst e + 1))"
proof (induction items arbitrary: nb)
  case Nil
  then show ?case by (simp add: dominates_refl)
next
  case (Cons it items)
  obtain res cnt prev info where it: "it = (res, (cnt, prev, info))" by (cases it) auto
  let ?nb = "dp_options max_edits i res cnt opts nb"
  from Cons.prems(2) it have cnt: "0 \<le> cnt" and e: "entry_le nb res cnt" by auto
  from dp_options_props[OF Cons.prems(1) e cnt, of max_edits i opts]
  have c1: "chain ?nb" and d1: "dominates nb ?nb"
    and o1: "\<forall>(r, repl) \<in> set opts. cnt + 1 \<le> max_edits \<longrightarrow>
               entry_le ?nb ((res + r) mod 9) (cnt + 1)"
    by blast+
  have p1: "\<forall>(res, e) \<in> set items. 0 \<le> fst e \<and> entry_le ?nb res (fst e)"
    using Cons.prems(2) d1 by (auto simp: dominates_def)
  from Cons.IH[OF c1 p1]
  have c2: "chain (dp_states max_edits i opts items ?nb)"
    and d2: "dominates ?nb (dp_states max_edits i opts items ?nb)"
    and o2: "\<forall>(res, e) \<in> set items. \<forall>(r, repl) \<in> set opts. fst e + 1 \<le> max_edits \<longrightarrow>
         entry_le (dp_states max_edits i opts items ?nb) ((res + r) mod 9) (fst e + 1)"
    by blast+
  have eq: "dp_states max_edits i opts (it # items) nb = dp_states max_edits i opts items ?nb"
    using it by simp
  have o1': "\<forall>(r, repl) \<in> set opts. cnt + 1 \<le> max_edits \<longrightarrow>
               entry_le (dp_states max_edits i opts items ?nb) ((res + r) mod 9) (cnt + 1)"
    using o1 d2 by (auto simp: dominates_def)
  show ?case
    unfolding eq using c2 dominates_trans[OF d1 d2] o1' o2 it by auto
qed

lemma is_selection_prefix:
  assumes "is_selection (pre @ [opts]) sel" and "\<forall>j \<in> set (map fst sel). j < length pre"
  shows "is_selection pre sel"
  unfolding is_selection_def
proof (intro conjI ballI)
  show "sorted_wrt (<) (map fst sel)" using assms(1) by (simp add: is_selection_def)
next
  fix x assume x: "x \<in> set sel"
  obtain i opt where io: "x = (i, opt)" by (cases x)
  from x io assms(2) have i: "i < length pre" by force
  from x io assms(1) have "opt \<in> set ((pre @ [opts]) ! i)"
    unfolding is_selection_def by blast
  with i io show "case x of (i, opt) \<Rightarrow> i < length pre \<and> opt \<in> set (pre ! i)"
    by (simp add: nth_append)
qed

lemma selection_residue_snoc:
  "selection_residue (sel @ [(j, r, repl)]) = (selection_residue sel + r) mod 9"
  by (simp add: selection_residue_def mod_add_left_eq)

lemma covers_step:
  assumes cov: "covers max_edits pre best" and dom: "dominates best best1"
      and opt: "\<forall>(res, e) \<in> set best. \<forall>(r, repl) \<in> set opts. fst e + 1 \<le> max_edits \<longrightarrow>
                  entry_le best1 ((res + r) mod 9) (fst e + 1)"
  shows "covers max_edits (pre @ [opts]) best1"
  unfolding covers_def
proof (intro allI impI)
  fix sel
  assume s: "is_selection (pre @ [opts]) sel" and len: "int (length sel) \<le> max_edits"
  show "entry_le best1 (selection_residue sel) (int (length sel))"
  proof (cases "\<forall>j \<in> set (map fst sel). j < length pre")
    case True
    from is_selection_prefix[OF s True] cov len
    have "entry_le best (selection_residue sel) (int (length sel))" by (simp add: covers_def)
    with dom show ?thesis by (simp add: dominates_def)
  next
    case False
    then have ne: "sel \<noteq> []" by auto
    then obtain sel' x where sel: "sel = sel' @ [x]" by (metis rev_exhaust)
    obtain j r repl where x: "x = (j, r, repl)" by (cases x)
    from s sel x have sorted: "sorted_wrt (<) (map fst sel' @ [j])"
      and jr: "j < length pre + 1" "(r, repl) \<in> set ((pre @ [opts]) ! j)"
      and mem: "\<forall>(i, opt) \<in> set sel'. i < length (pre @ [opts]) \<and> opt \<in> set ((pre @ [opts]) ! i)"
      by (auto simp: is_selection_def)
    from sorted have lt: "\<forall>k \<in> set (map fst sel'). k < j" and s': "sorted_wrt (<) (map fst sel')"
      by (auto simp: sorted_wrt_append)
    have j: "j = length pre"
    proof (rule ccontr)
      assume "j \<noteq> length pre"
      with jr(1) have "j < length pre" by simp
      with lt sel x have "\<forall>j \<in> set (map fst sel). j < length pre" by auto
      with False show False by simp
    qed
    with jr(2) have ro: "(r, repl) \<in> set opts" by simp
    have "is_selection (pre @ [opts]) sel'"
      using s' mem by (auto simp: is_selection_def)
    then have sel': "is_selection pre sel'"
      by (rule is_selection_prefix) (use lt j in auto)
    from len sel have len': "int (length sel') \<le> max_edits" by simp
    from cov sel' len' obtain e where
      e: "map_of best (selection_residue sel') = Some e" "fst e \<le> int (length sel')"
      unfolding covers_def entry_le_def by blast
    from e(1) have "(selection_residue sel', e) \<in> set best" by (rule map_of_SomeD)
    moreover from e(2) len sel have "fst e + 1 \<le> max_edits" by simp
    ultimately have "entry_le best1 ((selection_residue sel' + r) mod 9) (fst e + 1)"
      using opt ro by blast
    then have "entry_le best1 ((selection_residue sel' + r) mod 9) (int (length sel))"
      by (rule entry_le_mono) (use e(2) sel in simp)
    then show ?thesis by (simp add: sel x selection_residue_snoc)
  qed
qed

lemma dp_positions_props:
  "chain best \<Longrightarrow> covers max_edits pre best \<Longrightarrow>
   chain (dp_positions max_edits i rest best)
   \<and> covers max_edits (pre @ rest) (dp_positions max_edits i rest best)"
proof (induction rest arbitrary: pre best i)
  case Nil
  then show ?case by simp
next
  case (Cons opts rest)
  let ?b = "dp_states max_edits i opts best best"
  have items: "\<forall>(res, e) \<in> set best. 0 \<le> fst e \<and> entry_le best res (fst e)"
  proof (clarify)
    fix res e assume "(res, e) \<in> set best"
    with chain_distinct[OF Cons.prems(1)] have m: "map_of best res = Some e" by simp
    from chain_nonneg[OF Cons.prems(1) m] m show "0 \<le> fst e \<and> entry_le best res (fst e)"
      unfolding entry_le_def by simp
  qed
  from dp_states_props[OF Cons.prems(1) items, of max_edits i opts]
  have c1: "chain ?b" and d1: "dominates best ?b"
    and o1: "\<forall>(res, e) \<in> set best. \<forall>(r, repl) \<in> set opts. fst e + 1 \<le> max_edits \<longrightarrow>
               entry_le ?b ((res + r) mod 9) (fst e + 1)"
    by blast+
  have cov: "covers max_edits (pre @ [opts]) ?b"
    by (rule covers_step[OF Cons.prems(2) d1 o1])
  from Cons.IH[OF c1 cov, of "i + 1"] show ?case by simp
qed

lemma walk_best_chain:
  assumes ch: "chain best"
  shows "map_of best cur = Some e \<Longrightarrow>
         \<exists>out. walk_best best cur acc = Some (Inr out)
              \<and> int (length out) \<le> int (length acc) + fst e"
proof (induction "nat (fst e)" arbitrary: cur e acc rule: less_induct)
  case less
  from chain_nonneg[OF ch less.prems] have nn: "0 \<le> fst e" .
  show ?case
  proof (cases "cur = 0")
    case True
    then have "walk_best best cur acc = Some (Inr acc)"
      by (subst walk_best.simps) simp
    with nn show ?thesis by simp
  next
    case False
    obtain c prev p r repl where e: "e = (c, prev, (p, r, repl))" by (cases e) auto
    let ?acc = "if p \<ge> 0 then
                  (case repl of
                     None \<Rightarrow> acc @ [\<lparr>kind = ''del'', pos = p, ch = None, count = 1\<rparr>]
                   | Some s \<Rightarrow> acc @ [\<lparr>kind = ''sub'', pos = p, ch = Some s, count = 1\<rparr>])
                else acc"
    have step: "walk_best best cur acc = walk_best best prev ?acc"
      using False less.prems e by (subst walk_best.simps) simp
    have la: "int (length ?acc) \<le> int (length acc) + 1"
      by (simp split: option.splits)
    from chain_prev[OF ch less.prems False] e obtain e' where
      e': "map_of best prev = Some e'" "fst e' \<le> c - 1"
      unfolding entry_le_def by auto
    from chain_nonneg[OF ch e'(1)] have "0 \<le> fst e'" .
    with e'(2) e have "nat (fst e') < nat (fst e)" by simp
    from less.hyps[OF this e'(1), of ?acc] obtain out where
      out: "walk_best best prev ?acc = Some (Inr out)"
           "int (length out) \<le> int (length ?acc) + fst e'" by blast
    from out(2) la e'(2) e have "int (length out) \<le> int (length acc) + fst e" by simp
    with out(1) step show ?thesis by simp
  qed
qed

lemma initial_best:
  "chain [(0, (0, - 1, (- 1, 0, None)))] \<and> covers max_edits [] [(0, (0, - 1, (- 1, 0, None)))]"
proof
  show "chain [(0, (0, - 1, (- 1, 0, None)))]"
    by (simp add: chain_def entry_le_def)
  show "covers max_edits [] [(0, (0, - 1, (- 1, 0, None)))]"
    unfolding covers_def
  proof (intro allI impI)
    fix sel :: "(nat \<times> int \<times> pstr option) list"
    assume "is_selection [] sel"
    then have "sel = []" by (cases sel) (auto simp: is_selection_def)
    then show "entry_le [(0, (0, - 1, (- 1, 0, None)))] (selection_residue sel) (int (length sel))"
      by (simp add: entry_le_def selection_residue_def)
  qed
qed

lemma optimize_substitution_dp:
  assumes r: "optimize_substitution U P text tgt subs allow_delete allowed_inserts max_edits
                = Some (Inr eplan)"
      and se: "string_energy U P text = Inr (tot, dr)" and ne: "dr \<noteq> tgt"
      and ao: "all_options U P subs allow_delete text = Inr pos_deltas"
      and hit: "map_of (dp_positions max_edits 0 pos_deltas [(0, (0, - 1, (- 1, 0, None)))])
                  (target_residue tot tgt) = Some e"
  shows "\<exists>acc. walk_best (dp_positions max_edits 0 pos_deltas [(0, (0, - 1, (- 1, 0, None)))])
                  (target_residue tot tgt) [] = Some (Inr acc)
               \<and> ops eplan = rev acc"
proof -
  let ?best = "dp_positions max_edits 0 pos_deltas [(0, (0, - 1, (- 1, 0, None)))]"
  have rng: "1 \<le> tgt \<and> tgt \<le> 9"
    using r se by (auto simp: optimize_substitution_def split: if_splits)
  show ?thesis
  proof (cases "walk_best ?best (target_residue tot tgt) []")
    case None
    with r se ne rng ao hit show ?thesis
      by (simp add: optimize_substitution_def Let_def)
  next
    case (Some res)
    show ?thesis
    proof (cases res)
      case (Inl err)
      with r se ne rng ao hit Some show ?thesis
        by (simp add: optimize_substitution_def Let_def)
    next
      case (Inr acc)
      let ?out = "apply_edit_plan text
                    \<lparr>method = ''edit'', target = tgt, ops = rev acc,
                     total_before = tot, dr_before = dr, total_after = tot, dr_after = dr\<rparr>"
      show ?thesis
      proof (cases "string_energy U P ?out")
        case err: (Inl err)
        with r se ne rng ao hit Some Inr show ?thesis
          by (simp add: optimize_substitution_def Let_def)
      next
        case new: (Inr new)
        obtain nt nd where "new = (nt, nd)" by (cases new)
        with r se ne rng ao hit Some Inr new have "ops eplan = rev acc"
          by (auto simp: optimize_substitution_def Let_def)
        with Some Inr show ?thesis by simp
      qed
    qed
  qed
qed

lemma substitution_minimal:
  assumes r: "optimize_substitution U P text tgt subs allow_delete allowed_inserts max_edits
                = Some (Inr eplan)"
      and se: "string_energy U P text = Inr (tot, dr)"
      and ao: "all_options U P subs allow_delete text = Inr pos_deltas"
      and sel: "is_selection pos_deltas sel" and len: "int (length sel) \<le> max_edits"
      and res: "selection_residue sel = target_residue tot tgt"
  shows "length (ops eplan) \<le> length sel"
proof (cases "dr = tgt")
  case True
  have "1 \<le> tgt \<and> tgt \<le> 9"
    using r se by (auto simp: optimize_substitution_def split: if_splits)
  with r se True have "ops eplan = []" by (auto simp: optimize_substitution_def)
  then show ?thesis by simp
next
  case False
  let ?best = "dp_positions max_edits 0 pos_deltas [(0, (0, - 1, (- 1, 0, None)))]"
  from initial_best[of max_edits] dp_positions_props[of _ max_edits "[]" 0 pos_deltas]
  have ch: "chain ?best" and cov: "covers max_edits pos_deltas ?best" by auto
  from cov sel len res obtain e where
    e: "map_of ?best (target_residue tot tgt) = Some e" "fst e \<le> int (length sel)"
    unfolding covers_def entry_le_def by metis
  from optimize_substitution_dp[OF r se False ao e(1)] obtain acc where
    w: "walk_best ?best (target_residue tot tgt) [] = Some (Inr acc)" and o: "ops eplan = rev acc"
    by blast
  from walk_best_chain[OF ch e(1), of "[]"] w have "int (length acc) \<le> fst e" by auto
  with e(2) o show ?thesis by simp
qed

section \<open>Minimality of the plans\<close>

text \<open>
  C3: when \<open>optimize_attunement\<close> returns a plan, its total insertion count is the
  length of a shortest path to the required residue in the residue graph of the
  allowed symbols; and when \<open>optimize_substitution\<close> returns a plan, it has no more
  operations than any selection of edits within \<open>max_edits\<close> that reaches the
  required residue.
\<close>

theorem planner_minimality:
  "(optimize_attunement U P text tgt allowed_symbols meth max_steps = Some (Inr plan) \<longrightarrow>
    string_energy U P text = Inr (tot, dr) \<longrightarrow>
    collect_allowed U P (allowed_or_default allowed_symbols) = Inr allowed \<longrightarrow>
    (\<exists>seq. shortest_path (map (\<lambda>(s, e). e mod 9) allowed) (target_residue tot tgt) seq
           \<and> insertion_count plan = int (length seq)))
   \<and> (optimize_substitution U' P' text' tgt' subs allow_delete allowed_inserts max_edits
         = Some (Inr eplan) \<longrightarrow>
      string_energy U' P' text' = Inr (tot', dr') \<longrightarrow>
      all_options U' P' subs allow_delete text' = Inr pos_deltas \<longrightarrow>
      is_selection pos_deltas sel \<longrightarrow> int (length sel) \<le> max_edits \<longrightarrow>
      selection_residue sel = target_residue tot' tgt' \<longrightarrow>
      length (ops eplan) \<le> length sel)"
proof (intro conjI impI)
  assume "optimize_attunement U P text tgt allowed_symbols meth max_steps = Some (Inr plan)"
     and "string_energy U P text = Inr (tot, dr)"
     and "collect_allowed U P (allowed_or_default allowed_symbols) = Inr allowed"
  then show "\<exists>seq. shortest_path (map (\<lambda>(s, e). e mod 9) allowed) (target_residue tot tgt) seq
                 \<and> insertion_count plan = int (length seq)"
    by (rule attunement_minimal)
next
  assume "optimize_substitution U' P' text' tgt' subs allow_delete allowed_inserts max_edits
            = Some (Inr eplan)"
     and "string_energy U' P' text' = Inr (tot', dr')"
     and "all_options U' P' subs allow_delete text' = Inr pos_deltas"
     and "is_selection pos_deltas sel" and "int (length sel) \<le> max_edits"
     and "selection_residue sel = target_residue tot' tgt'"
  then show "length (ops eplan) \<le> length sel"
    by (rule substitution_minimal)
qed

theorem planner_minimality_witness:
  "(\<exists>seq. shortest_path
            (map (\<lambda>(s, e). e mod 9)
               [([46 :: nat], 1 :: int), ([33], 3), ([63], 4), ([42], 9), ([43], 4)])
            (target_residue 57 7) seq
         \<and> insertion_count
              \<lparr>Plan.method = ''append'', Plan.target = 7, steps = [([63], 1)],
               Plan.total_before = 57, Plan.dr_before = 3, Plan.total_after = 61,
               Plan.dr_after = 7\<rparr> = int (length seq))
   \<and> length (ops \<lparr>method = ''edit'', target = 7,
                   ops = [\<lparr>kind = ''sub'', pos = 0, ch = Some [89], count = 1\<rparr>],
                   total_before = 6, dr_before = 6, total_after = 7, dr_after = 7\<rparr>)
       \<le> length [(0 :: nat, 1 :: int, Some [89 :: nat])]"
proof -
  let ?hello = "[72, 101, 108, 108, 111, 44, 32, 119, 111, 114, 108, 100, 33] :: pstr"
  let ?subs = "Some [[88] \<mapsto> [[89]]] :: (pstr \<rightharpoonup> pstr list) option"
  let ?sel = "[(0 :: nat, 1 :: int, Some [89 :: nat])]"
  let ?pd = "[[(1 :: int, Some [89 :: nat])]]"
  have a1: "optimize_attunement latin1 ninefold_grid ?hello 7 (Some [46, 33, 63, 42, 43])
              ''append'' 64
            = Some (Inr \<lparr>Plan.method = ''append'', Plan.target = 7, steps = [([63], 1)],
                         Plan.total_before = 57, Plan.dr_before = 3, Plan.total_after = 61,
                         Plan.dr_after = 7\<rparr>)"
    by code_simp
  have a2: "string_energy latin1 ninefold_grid ?hello = Inr (57, 3)" by code_simp
  have a3: "collect_allowed latin1 ninefold_grid (allowed_or_default (Some [46, 33, 63, 42, 43]))
              = Inr [([46], 1), ([33], 3), ([63], 4), ([42], 9), ([43], 4)]"
    by code_simp
  have b1: "optimize_substitution latin1 ninefold_grid [88] 7 ?subs False None 8
            = Some (Inr \<lparr>method = ''edit'', target = 7,
                         ops = [\<lparr>kind = ''sub'', pos = 0, ch = Some [89], count = 1\<rparr>],
                         total_before = 6, dr_before = 6, total_after = 7, dr_after = 7\<rparr>)"
    by code_simp
  have b2: "string_energy latin1 ninefold_grid [88] = Inr (6, 6)" by code_simp
  have b3: "all_options latin1 ninefold_grid ?subs False [88] = Inr ?pd"
    by code_simp
  have b4: "is_selection ?pd ?sel" by (simp add: is_selection_def)
  have b5: "int (length ?sel) \<le> 8" by simp
  have b6: "selection_residue ?sel = target_residue 6 7"
    by (simp add: selection_residue_def target_residue_def residue_def)
  from planner_minimality[THEN conjunct1, rule_format, OF a1 a2 a3]
       planner_minimality[THEN conjunct2, rule_format, OF b1 b2 b3 b4 b5 b6]
  show ?thesis by blast
qed

section \<open>The planners return\<close>

text \<open>
  The two reconstruction loops end on the dicts the searches build, so neither planner
  runs forever: every call returns a plan or raises.
\<close>

lemma minimal_residue_combo_returns:
  "minimal_residue_combo delta allowed max_steps \<noteq> None"
proof (cases "delta = 0 \<or> list_all (\<lambda>r. r = 0) (map (\<lambda>(s, e). e mod 9) allowed)")
  case True
  then show ?thesis by (auto simp: minimal_residue_combo_def Let_def)
next
  case False
  let ?rs = "map (\<lambda>(s, e). e mod 9) allowed"
  show ?thesis
  proof (cases "bfs_loop delta ?rs max_steps [0 \<mapsto> (- 1, - 1)] [0 \<mapsto> 0] [0]")
    case (Inl err)
    with False show ?thesis by (simp add: minimal_residue_combo_def Let_def)
  next
    case (Inr found)
    show ?thesis
    proof (cases found)
      case None
      with False Inr show ?thesis by (simp add: minimal_residue_combo_def Let_def)
    next
      case (Some pn)
      obtain parent' nxt where pn: "pn = (parent', nxt)" by (cases pn)
      from initial_invariants[of ?rs max_steps] bfs_loop_found[OF _ _ Inr[unfolded Some pn]]
      obtain depth' dd where "nxt = delta" "tree_inv ?rs parent' depth'" "depth' delta = Some dd"
        by blast
      with walk_parent_tree[of ?rs parent' depth' delta dd "[]"]
      obtain path where "walk_parent parent' nxt [] = Some (Inr path)" by auto
      with False Inr Some pn show ?thesis by (simp add: minimal_residue_combo_def Let_def)
    qed
  qed
qed

lemma optimize_attunement_returns:
  "optimize_attunement U P text tgt allowed_symbols meth max_steps \<noteq> None"
  unfolding optimize_attunement_def Let_def
  by (auto split: sum.splits option.splits prod.splits simp: minimal_residue_combo_returns)

lemma optimize_substitution_returns:
  "optimize_substitution U P text tgt subs allow_delete allowed_inserts max_edits \<noteq> None"
proof (cases "string_energy U P text")
  case (Inl err)
  then show ?thesis by (simp add: optimize_substitution_def)
next
  case (Inr td)
  obtain tot dr where td: "td = (tot, dr)" by (cases td)
  show ?thesis
  proof (cases "all_options U P subs allow_delete text")
    case err: (Inl err)
    with Inr td show ?thesis by (simp add: optimize_substitution_def)
  next
    case pd: (Inr pos_deltas)
    let ?best = "dp_positions max_edits 0 pos_deltas [(0, (0, - 1, (- 1, 0, None)))]"
    from initial_best[of max_edits] dp_positions_props[of _ max_edits "[]" 0 pos_deltas]
    have ch: "chain ?best" by auto
    show ?thesis
    proof (cases "map_of ?best (target_residue tot tgt)")
      case None
      with Inr td pd optimize_attunement_returns[of U P "text" tgt allowed_inserts "''append''" 64]
      show ?thesis
        by (auto simp: optimize_substitution_def Let_def split: sum.splits option.splits prod.splits)
    next
      case (Some e)
      from walk_best_chain[OF ch Some, of "[]"] obtain out where
        "walk_best ?best (target_residue tot tgt) [] = Some (Inr out)" by blast
      with Inr td pd Some show ?thesis
        by (auto simp: optimize_substitution_def Let_def split: sum.splits prod.splits)
    qed
  qed
qed

section \<open>The applied insertion plan and its checksum\<close>

text \<open>
  Outside one case the applied plan of \<open>optimize_attunement\<close> has the target as its
  digital root, under each of the three methods and any spread: the case left out is a
  text of total energy 0 under a principle that does not normalize zero to nine.
\<close>

lemma energy_sum_eq:
  "energy_sum U P acc xs = Inr t \<longleftrightarrow>
     list_all (has_energy U P) xs \<and> t = acc + sum_list (map (energy_of U P) xs)"
proof (induction xs arbitrary: acc)
  case Nil
  then show ?case by auto
next
  case (Cons c xs)
  show ?case
  proof (cases "char_energy U P [c]")
    case (Inl err)
    then show ?thesis by (simp add: has_energy_def)
  next
    case (Inr e)
    then show ?thesis
      using Cons.IH[of "acc + e"] by (simp add: has_energy_def energy_of_def add.assoc)
  qed
qed

lemma string_energy_eq:
  "string_energy U P xs = Inr (t, d) \<longleftrightarrow>
     list_all (has_energy U P) xs \<and> t = sum_list (map (energy_of U P) xs)
     \<and> d = digital_root t (normalize_zero_to_nine P)"
proof (cases "energy_sum U P 0 xs")
  case (Inl err)
  with energy_sum_eq[of U P 0 xs] show ?thesis
    by (auto simp: string_energy_def)
next
  case (Inr t')
  with energy_sum_eq[of U P 0 xs t'] show ?thesis
    by (auto simp: string_energy_def)
qed

lemma joined_steps_concat: "joined_steps stps = concat (insert_list stps)"
  by (induction stps) (auto simp: joined_steps_def insert_list_def repeat_str_def)

lemma intersperse_loop_sum:
  fixes f :: "nat \<Rightarrow> 'a::comm_monoid_add"
  shows "intersperse_loop interval inserts ers (out, i) = (out', i') \<Longrightarrow> i \<le> length inserts \<Longrightarrow>
   i' \<le> length inserts \<and>
   sum_list (map f (concat out')) + sum_list (map f (concat (drop i' inserts)))
     = sum_list (map f (concat out)) + sum_list (map f (map snd ers))
       + sum_list (map f (concat (drop i inserts)))"
proof (induction ers arbitrary: out i)
  case Nil
  then show ?case by simp
next
  case (Cons a ers)
  obtain k c where a: "a = (k, c)" by (cases a)
  show ?case
  proof (cases "(k + 1) mod interval = 0 \<and> i < length inserts")
    case True
    with Cons.prems a have
      "intersperse_loop interval inserts ers ((out @ [[c]]) @ [inserts ! i], i + 1) = (out', i')"
      by (simp add: Let_def)
    from Cons.IH[OF this] True have
      "i' \<le> length inserts" and
      "sum_list (map f (concat out')) + sum_list (map f (concat (drop i' inserts)))
         = sum_list (map f (concat ((out @ [[c]]) @ [inserts ! i]))) + sum_list (map f (map snd ers))
           + sum_list (map f (concat (drop (i + 1) inserts)))"
      by auto
    moreover have "drop i inserts = inserts ! i # drop (i + 1) inserts"
      using True by (simp add: Cons_nth_drop_Suc)
    ultimately show ?thesis using a by (simp add: ac_simps)
  next
    case False
    with Cons.prems a have
      "intersperse_loop interval inserts ers (out @ [[c]], i) = (out', i')"
      by (auto simp: Let_def)
    from Cons.IH[OF this Cons.prems(2)] a show ?thesis by (simp add: ac_simps)
  qed
qed

lemma enumerate_int_snd_map: "map snd (enumerate_int xs) = xs"
  by (simp add: enumerate_int_def)

lemma apply_plan_sum:
  fixes f :: "nat \<Rightarrow> 'a::comm_monoid_add"
  assumes "apply_plan text plan spread = Inr out"
  shows "sum_list (map f out)
           = sum_list (map f text) + sum_list (map f (joined_steps (steps plan)))"
proof (cases "steps plan = []")
  case True
  with assms show ?thesis by (simp add: apply_plan_def joined_steps_def)
next
  case ne: False
  consider (app) "Plan.method plan = ''append''" | (pre) "Plan.method plan = ''prepend''"
    | (int) "Plan.method plan = ''intersperse''"
    using assms ne by (auto simp: apply_plan_def split: if_splits)
  then show ?thesis
  proof cases
    case app
    with assms ne show ?thesis by (auto simp: apply_plan_def)
  next
    case pre
    with assms ne show ?thesis by (auto simp: apply_plan_def ac_simps)
  next
    case int
    let ?ins = "insert_list (steps plan)"
    show ?thesis
    proof (cases "text = [] \<or> ?ins = []")
      case True
      then show ?thesis
      proof
        assume "text = []"
        with assms ne int have "out = concat ?ins" by (simp add: apply_plan_def)
        with \<open>text = []\<close> show ?thesis by (simp add: joined_steps_concat)
      next
        assume e: "?ins = []"
        show ?thesis
        proof (cases "text = []")
          case True
          with assms ne int have "out = concat ?ins" by (simp add: apply_plan_def)
          with True show ?thesis by (simp add: joined_steps_concat)
        next
          case False
          with assms ne int e have "out = text" by (simp add: apply_plan_def)
          with e show ?thesis by (simp add: joined_steps_concat)
        qed
      qed
    next
      case False
      define interval where
        "interval = (case spread of
                       None \<Rightarrow> max 1 (int (length text) div (int (length ?ins) + 1))
                     | Some sp \<Rightarrow> if sp = 0
                                  then max 1 (int (length text) div (int (length ?ins) + 1))
                                  else sp)"
      obtain out' i' where l: "intersperse_loop interval ?ins (enumerate_int text) ([], 0) = (out', i')"
        by (cases "intersperse_loop interval ?ins (enumerate_int text) ([], 0)")
      with assms ne int False have o: "out = concat (out' @ drop i' ?ins)"
        by (simp add: apply_plan_def Let_def interval_def[symmetric])
      from intersperse_loop_sum[OF l, of f] have
        "sum_list (map f (concat out')) + sum_list (map f (concat (drop i' ?ins)))
           = sum_list (map f text) + sum_list (map f (concat ?ins))"
        by (simp add: enumerate_int_snd_map)
      with o show ?thesis by (simp add: joined_steps_concat)
    qed
  qed
qed

lemma apply_plan_returns:
  assumes "Plan.method plan = ''append'' \<or> Plan.method plan = ''prepend''
           \<or> Plan.method plan = ''intersperse''"
  shows "\<exists>out. apply_plan text plan spread = Inr out"
  using assms unfolding apply_plan_def Let_def
  by (auto split: prod.splits)

lemma collect_allowed_props:
  "collect_allowed U P symbols = Inr allowed \<Longrightarrow>
   \<forall>(symb, e) \<in> set allowed. \<exists>s. symb = [s] \<and> char_energy U P [s] = Inr e \<and> e \<noteq> 0"
proof (induction symbols arbitrary: allowed)
  case Nil
  then show ?case by simp
next
  case (Cons s rest)
  from Cons.prems obtain e al where e: "char_energy U P [s] = Inr e"
    and al: "collect_allowed U P rest = Inr al"
    and eq: "allowed = (if e = 0 then al else ([s], e) # al)"
    by (auto split: sum.splits)
  from Cons.IH[OF al] e eq show ?case by auto
qed

lemma emit_steps_energy:
  assumes "\<forall>(i, symb, e) \<in> set ers. \<exists>s. symb = [s] \<and> char_energy U P [s] = Inr e"
      and "\<forall>i c. counts i = Some c \<longrightarrow> 0 \<le> c"
  shows "added_energy U P acc (emit_steps counts ers)
           = Inr (acc + (\<Sum>(i, symb, e)\<leftarrow>ers. case counts i of None \<Rightarrow> 0 | Some c \<Rightarrow> c * e))
       \<and> list_all (has_energy U P) (joined_steps (emit_steps counts ers))
       \<and> sum_list (map (energy_of U P) (joined_steps (emit_steps counts ers)))
           = (\<Sum>(i, symb, e)\<leftarrow>ers. case counts i of None \<Rightarrow> 0 | Some c \<Rightarrow> c * e)"
  using assms(1)
proof (induction ers arbitrary: acc)
  case Nil
  then show ?case by (simp add: joined_steps_def)
next
  case (Cons a ers)
  obtain i symb e where a: "a = (i, symb, e)" by (cases a)
  with Cons.prems obtain s where s: "symb = [s]" "char_energy U P [s] = Inr e" by auto
  from Cons.prems have rest: "\<forall>(i, symb, e) \<in> set ers. \<exists>s. symb = [s] \<and> char_energy U P [s] = Inr e"
    by simp
  note IH = Cons.IH[OF rest]
  show ?case
  proof (cases "counts i")
    case None
    with a IH show ?thesis by simp
  next
    case (Some c)
    with assms(2) have c: "0 \<le> c" by blast
    have j: "joined_steps (([s], c) # emit_steps counts ers)
               = replicate (nat c) s @ joined_steps (emit_steps counts ers)"
      by (simp add: joined_steps_def repeat_str_def)
    have en: "sum_list (map (energy_of U P) (replicate (nat c) s)) = c * e"
      using c s(2) by (simp add: sum_list_replicate energy_of_def)
    have he: "list_all (has_energy U P) (replicate (nat c) s)"
      using s(2) by (simp add: list_all_iff has_energy_def)
    from IH[of "acc + c * e"] a Some s en he show ?thesis
      by (simp add: j add.assoc)
  qed
qed

lemma enumerate_int_map: "enumerate_int xs = map (\<lambda>k. (int k, xs ! k)) [0..<length xs]"
proof (rule nth_equalityI)
  show "length (enumerate_int xs) = length (map (\<lambda>k. (int k, xs ! k)) [0..<length xs])"
    by (simp add: enumerate_int_def)
next
  fix i assume "i < length (enumerate_int xs)"
  then have "i < length xs" by (simp add: enumerate_int_def)
  then show "enumerate_int xs ! i = map (\<lambda>k. (int k, xs ! k)) [0..<length xs] ! i"
    by (simp add: enumerate_int_def)
qed

lemma weighted_count_sum:
  "\<forall>i \<in> set seq. 0 \<le> i \<and> i < int n \<Longrightarrow>
   (\<Sum>k\<leftarrow>[0..<n]. int (count_list seq (int k)) * w k) = (\<Sum>j\<leftarrow>seq. w (nat j))"
proof (induction seq)
  case Nil
  then show ?case by simp
next
  case (Cons x seq)
  then obtain k where k: "x = int k" "k < n"
    by (metis list.set_intros(1) nat_less_iff int_nat_eq)
  have "(\<Sum>i\<leftarrow>[0..<n]. int (count_list (x # seq) (int i)) * w i)
          = (\<Sum>i\<leftarrow>[0..<n]. (if k = i then w k else 0) + int (count_list seq (int i)) * w i)"
    using k by (intro arg_cong[where f = sum_list] map_cong) (auto simp: algebra_simps)
  also have "\<dots> = (\<Sum>i\<leftarrow>[0..<n]. if k = i then w k else 0)
                    + (\<Sum>i\<leftarrow>[0..<n]. int (count_list seq (int i)) * w i)"
    by (simp add: sum_list_addf)
  also have "(\<Sum>i\<leftarrow>[0..<n]. if k = i then w k else 0) = w k"
  proof -
    have "(\<Sum>i\<leftarrow>[0..<n]. if k = i then w k else 0) = (\<Sum>i \<in> {0..<n}. if k = i then w k else 0)"
      by (simp add: interv_sum_list_conv_sum_set_nat)
    also have "\<dots> = w k" using k(2) by simp
    finally show ?thesis .
  qed
  finally show ?case using Cons k by simp
qed

lemma build_steps_energy:
  assumes al: "\<forall>(symb, e) \<in> set allowed. \<exists>s. symb = [s] \<and> char_energy U P [s] = Inr e \<and> e \<noteq> 0"
      and seq: "\<forall>i \<in> set seq. 0 \<le> i \<and> i < int (length allowed)"
  shows "added_energy U P 0 (build_steps_from_seq seq allowed)
           = Inr (\<Sum>j\<leftarrow>seq. snd (allowed ! nat j))
       \<and> list_all (has_energy U P) (joined_steps (build_steps_from_seq seq allowed))
       \<and> sum_list (map (energy_of U P) (joined_steps (build_steps_from_seq seq allowed)))
           = (\<Sum>j\<leftarrow>seq. snd (allowed ! nat j))"
proof -
  let ?counts = "tally seq Map.empty"
  have ers: "\<forall>(i, symb, e) \<in> set (enumerate_int allowed).
               \<exists>s. symb = [s] \<and> char_energy U P [s] = Inr e"
  proof (clarify)
    fix i symb e assume "(i, symb, e) \<in> set (enumerate_int allowed)"
    then have "(symb, e) \<in> set allowed"
      unfolding enumerate_int_def by (rule set_zip_rightD)
    with al show "\<exists>s. symb = [s] \<and> char_energy U P [s] = Inr e" by auto
  qed
  have nn: "\<forall>i c. ?counts i = Some c \<longrightarrow> 0 \<le> c"
    by (auto simp: tally_eq split: if_splits)
  have "(\<Sum>(i, symb, e)\<leftarrow>enumerate_int allowed. case ?counts i of None \<Rightarrow> 0 | Some c \<Rightarrow> c * e)
          = (\<Sum>k\<leftarrow>[0..<length allowed]. case ?counts (int k) of None \<Rightarrow> 0
                                            | Some c \<Rightarrow> c * snd (allowed ! k))"
    by (simp add: enumerate_int_map comp_def case_prod_beta)
  also have "\<dots> = (\<Sum>k\<leftarrow>[0..<length allowed]. int (count_list seq (int k)) * snd (allowed ! k))"
    by (intro arg_cong[where f = sum_list] map_cong) (auto simp: tally_eq)
  also have "\<dots> = (\<Sum>j\<leftarrow>seq. snd (allowed ! nat j))"
    by (rule weighted_count_sum[OF seq])
  finally have sum:
    "(\<Sum>(i, symb, e)\<leftarrow>enumerate_int allowed. case ?counts i of None \<Rightarrow> 0 | Some c \<Rightarrow> c * e)
       = (\<Sum>j\<leftarrow>seq. snd (allowed ! nat j))" .
  from emit_steps_energy[OF ers nn, of 0] sum show ?thesis
    by (simp add: build_steps_from_seq_def)
qed

lemma sum_list_mod9: "(\<Sum>j\<leftarrow>xs. f j mod 9) mod 9 = (\<Sum>j\<leftarrow>xs. f j) mod (9 :: int)"
proof (induction xs)
  case Nil
  then show ?case by simp
next
  case (Cons x xs)
  have "(f x mod 9 + (\<Sum>j\<leftarrow>xs. f j mod 9)) mod 9 = (f x + (\<Sum>j\<leftarrow>xs. f j mod 9) mod 9) mod 9"
    by (simp add: mod_add_eq mod_add_left_eq mod_add_right_eq)
  also have "\<dots> = (f x + (\<Sum>j\<leftarrow>xs. f j)) mod 9"
    by (simp add: Cons mod_add_right_eq)
  finally show ?case by simp
qed

lemma path_energy:
  assumes al: "\<forall>(symb, e) \<in> set allowed. \<exists>s. symb = [s] \<and> char_energy U P [s] = Inr e \<and> e \<noteq> 0"
      and ip: "is_path (map (\<lambda>(s, e). e mod 9) allowed) seq delta"
  shows "(\<Sum>j\<leftarrow>seq. snd (allowed ! nat j)) mod 9 = delta"
    and "seq \<noteq> [] \<Longrightarrow> 0 < (\<Sum>j\<leftarrow>seq. snd (allowed ! nat j))"
proof -
  from ip have rng: "\<forall>j \<in> set seq. 0 \<le> j \<and> j < int (length allowed)"
    and sum: "(\<Sum>j\<leftarrow>seq. map (\<lambda>(s, e). e mod 9) allowed ! nat j) mod 9 = delta"
    by (simp_all add: is_path_def)
  have "(\<Sum>j\<leftarrow>seq. map (\<lambda>(s, e). e mod 9) allowed ! nat j)
          = (\<Sum>j\<leftarrow>seq. snd (allowed ! nat j) mod 9)"
    using rng by (intro arg_cong[where f = sum_list] map_cong) (auto simp: case_prod_beta)
  with sum show "(\<Sum>j\<leftarrow>seq. snd (allowed ! nat j)) mod 9 = delta"
    by (simp add: sum_list_mod9)
  have pos: "\<forall>j \<in> set seq. 1 \<le> snd (allowed ! nat j)"
  proof
    fix j assume "j \<in> set seq"
    with rng have "nat j < length allowed" by auto
    then have "allowed ! nat j \<in> set allowed" by (rule nth_mem)
    with al obtain s where "char_energy U P [s] = Inr (snd (allowed ! nat j))"
      and "snd (allowed ! nat j) \<noteq> 0" by (cases "allowed ! nat j") auto
    with char_energy_nonneg[of U P "[s]"] show "1 \<le> snd (allowed ! nat j)" by fastforce
  qed
  show "0 < (\<Sum>j\<leftarrow>seq. snd (allowed ! nat j))" if "seq \<noteq> []"
  proof -
    have "int (length seq) \<le> (\<Sum>j\<leftarrow>seq. snd (allowed ! nat j))"
      using pos by (induction seq) auto
    with that show ?thesis by (cases seq) auto
  qed
qed

lemma digital_root_target:
  assumes "0 < n" and "n mod 9 = tgt mod 9" and "1 \<le> tgt" and "tgt \<le> 9"
  shows "digital_root n z = tgt"
proof -
  from assms(1) have a: "\<bar>n\<bar> = n" "n \<noteq> 0" by simp_all
  show ?thesis
  proof (cases "tgt = 9")
    case True
    with assms(2) a show ?thesis by (simp add: digital_root_def)
  next
    case False
    with assms(3,4) have "tgt mod 9 = tgt" "tgt \<noteq> 0" by simp_all
    with assms(2) a show ?thesis by (simp add: digital_root_def)
  qed
qed

lemma list_all_indicator:
  "list_all Q xs \<longleftrightarrow> sum_list (map (\<lambda>c. if Q c then 0 else (1::nat)) xs) = 0"
  by (induction xs) auto

lemma target_residue_add:
  "(tot + target_residue tot tgt) mod 9 = tgt mod 9"
proof -
  have "(tot + (tgt mod 9 - tot mod 9) mod 9) mod 9 = tgt mod 9" by presburger
  then show ?thesis by (simp add: target_residue_def residue_def Let_def)
qed

lemma optimize_attunement_method:
  assumes r: "optimize_attunement U P text tgt allowed_symbols meth max_steps = Some (Inr plan)"
  shows "Plan.method plan = meth \<and> 1 \<le> tgt \<and> tgt \<le> 9"
proof -
  obtain tot dr where se: "string_energy U P text = Inr (tot, dr)"
    using r by (cases "string_energy U P text") (auto simp: optimize_attunement_def)
  have rng: "1 \<le> tgt \<and> tgt \<le> 9"
    using r se by (auto simp: optimize_attunement_def split: if_splits)
  have "Plan.method plan = meth"
    using r se rng unfolding optimize_attunement_def Let_def
    by (auto split: if_splits sum.splits option.splits)
  with rng show ?thesis by simp
qed

lemma attunement_reaches_target:
  assumes r: "optimize_attunement U P text tgt allowed_symbols meth max_steps = Some (Inr plan)"
      and se: "string_energy U P text = Inr (tot, dr)"
      and nz: "normalize_zero_to_nine P \<or> tot \<noteq> 0"
      and m: "meth = ''append'' \<or> meth = ''prepend'' \<or> meth = ''intersperse''"
  shows "\<exists>out tot'. apply_plan text plan spread = Inr out \<and> string_energy U P out = Inr (tot', tgt)"
proof -
  from optimize_attunement_method[OF r] have pm: "Plan.method plan = meth"
    and rng: "1 \<le> tgt" "tgt \<le> 9" by simp_all
  from apply_plan_returns[of plan "text" spread] pm m obtain out where
    out: "apply_plan text plan spread = Inr out" by auto
  have t0: "0 \<le> tot" by (rule string_energy_nonneg[OF se])
  from se have he: "list_all (has_energy U P) text"
    and tot: "tot = sum_list (map (energy_of U P) text)"
    and dr: "dr = digital_root tot (normalize_zero_to_nine P)"
    by (simp_all add: string_energy_eq)
  show ?thesis
  proof (cases "dr = tgt")
    case True
    with r se rng have "steps plan = []" by (auto simp: optimize_attunement_def)
    with out have "out = text" by (simp add: apply_plan_def)
    with True se out show ?thesis by auto
  next
    case ne: False
    with optimize_attunement_Inr[OF r se] obtain allowed seq where
      ca: "collect_allowed U P (allowed_or_default allowed_symbols) = Inr allowed"
      and mc: "minimal_residue_combo (target_residue tot tgt) allowed max_steps = Some (Inr (Some seq))"
      and st: "steps plan = build_steps_from_seq seq allowed" by blast
    note al = collect_allowed_props[OF ca]
    from minimal_residue_combo_shortest[OF mc]
    have ip: "is_path (map (\<lambda>(s, e). e mod 9) allowed) seq (target_residue tot tgt)"
      by (simp add: shortest_path_def)
    then have sr: "\<forall>i \<in> set seq. 0 \<le> i \<and> i < int (length allowed)"
      by (simp add: is_path_def)
    let ?added = "\<Sum>j\<leftarrow>seq. snd (allowed ! nat j)"
    from build_steps_energy[OF al sr] st
    have hj: "list_all (has_energy U P) (joined_steps (steps plan))"
      and ej: "sum_list (map (energy_of U P) (joined_steps (steps plan))) = ?added"
      by simp_all
    have am: "?added mod 9 = target_residue tot tgt" by (rule path_energy(1)[OF al ip])
    have cong: "(tot + ?added) mod 9 = tgt mod 9"
    proof -
      have "(tot + ?added) mod 9 = (tot + ?added mod 9) mod 9" by (simp add: mod_add_right_eq)
      with am target_residue_add[of tot tgt] show ?thesis by simp
    qed
    have pos: "0 < tot + ?added"
    proof (cases "seq = []")
      case False
      from path_energy(2)[OF al ip False] t0 show ?thesis by simp
    next
      case True
      with cong have c: "tot mod 9 = tgt mod 9" by simp
      show ?thesis
      proof (cases "tot = 0")
        case False
        with t0 True show ?thesis by simp
      next
        case z: True
        with nz have "normalize_zero_to_nine P" by simp
        with z dr have "dr = 9" by (simp add: digital_root_def)
        moreover from c z rng have "tgt = 9" by presburger
        ultimately have "dr = tgt" by simp
        with ne show ?thesis by simp
      qed
    qed
    let ?ind = "\<lambda>c. if has_energy U P c then 0 else (1::nat)"
    have i1: "sum_list (map ?ind text) = 0"
      using he by (rule iffD1[OF list_all_indicator])
    have i2: "sum_list (map ?ind (joined_steps (steps plan))) = 0"
      using hj by (rule iffD1[OF list_all_indicator])
    have "sum_list (map ?ind out) = 0"
      unfolding apply_plan_sum[OF out, of ?ind] i1 i2 by simp
    then have "list_all (has_energy U P) out"
      by (rule iffD2[OF list_all_indicator])
    moreover have "sum_list (map (energy_of U P) out) = tot + ?added"
      using apply_plan_sum[OF out, of "energy_of U P"] tot ej by simp
    ultimately have "string_energy U P out
        = Inr (tot + ?added, digital_root (tot + ?added) (normalize_zero_to_nine P))"
      by (simp add: string_energy_eq)
    with digital_root_target[OF pos cong rng] out show ?thesis by auto
  qed
qed

section \<open>Inputs on which a plan misses its target\<close>

text \<open>
  C1 at the empty text, target 9, under the built-in principle with
  \<open>normalize_zero_to_nine\<close> off: the planner returns a plan without steps, and the
  applied plan has digital root 0, not 9.
\<close>

theorem attunement_zero_total:
  "optimize_attunement latin1 (ninefold_grid\<lparr>normalize_zero_to_nine := False\<rparr>) [] 9 None
     ''append'' 64
     = Some (Inr \<lparr>Plan.method = ''append'', Plan.target = 9, steps = [], Plan.total_before = 0,
                  Plan.dr_before = 0, Plan.total_after = 0, Plan.dr_after = 0\<rparr>)
   \<and> apply_plan []
        \<lparr>Plan.method = ''append'', Plan.target = 9, steps = [], Plan.total_before = 0,
         Plan.dr_before = 0, Plan.total_after = 0, Plan.dr_after = 0\<rparr> None = Inr []
   \<and> string_energy latin1 (ninefold_grid\<lparr>normalize_zero_to_nine := False\<rparr>) [] = Inr (0, 0)"
  by code_simp

text \<open>The plan the edit planner returns for HHHEA, target 1, deletions allowed.\<close>

lemma substitution_HHHEA:
  "optimize_substitution latin1 ninefold_grid [72, 72, 72, 69, 65] 1 None True None 8 =
     Some (Inr \<lparr>method = ''edit'', target = 1,
                ops = [\<lparr>kind = ''del'', pos = 3, ch = None, count = 1\<rparr>,
                       \<lparr>kind = ''del'', pos = 4, ch = None, count = 1\<rparr>,
                       \<lparr>kind = ''del'', pos = 3, ch = None, count = 1\<rparr>],
                total_before = 30, dr_before = 3, total_after = 24, dr_after = 6\<rparr>)"
  by code_simp

text \<open>
  C2 at the text HHHEA, target 1, deletions allowed: the plan returned declares
  target 1, and the checksum of the applied plan has digital root 6.
\<close>

theorem substitution_misses_target:
  "\<exists>plan. optimize_substitution latin1 ninefold_grid [72, 72, 72, 69, 65] 1 None True None 8
            = Some (Inr plan)
     \<and> target plan = 1
     \<and> apply_edit_plan [72, 72, 72, 69, 65] plan = [72, 72, 72]
     \<and> string_energy latin1 ninefold_grid (apply_edit_plan [72, 72, 72, 69, 65] plan)
         = Inr (24, 6)"
proof -
  have "apply_edit_plan [72, 72, 72, 69, 65]
          \<lparr>method = ''edit'', target = 1,
           ops = [\<lparr>kind = ''del'', pos = 3, ch = None, count = 1\<rparr>,
                  \<lparr>kind = ''del'', pos = 4, ch = None, count = 1\<rparr>,
                  \<lparr>kind = ''del'', pos = 3, ch = None, count = 1\<rparr>],
           total_before = 30, dr_before = 3, total_after = 24, dr_after = 6\<rparr> = [72, 72, 72]"
    by code_simp
  moreover have "string_energy latin1 ninefold_grid [72, 72, 72] = Inr (24, 6)"
    by code_simp
  ultimately show ?thesis
    by (simp add: substitution_HHHEA)
qed

text \<open>
  C4 at the same input: the plan comes from the dynamic program, and two of its
  deletions name position 3.
\<close>

theorem substitution_repeats_position:
  "\<exists>plan. optimize_substitution latin1 ninefold_grid [72, 72, 72, 69, 65] 1 None True None 8
            = Some (Inr plan)
     \<and> length (ops plan) = 3
     \<and> kind (ops plan ! 0) = ''del'' \<and> pos (ops plan ! 0) = 3
     \<and> kind (ops plan ! 2) = ''del'' \<and> pos (ops plan ! 2) = 3"
  by (simp add: substitution_HHHEA)

end
